theory Spec2Isabelle
  imports Complex_Main "HOL-Library.Monad_Syntax"
begin

section \<open>The data model of \<open>src/index.ts\<close>\<close>

text \<open>
  The five functions the caller hands to \<open>Minimax\<close>, over an opaque board type \<open>'b\<close>
  (the source's \<open>T\<close>) and an opaque transition type \<open>'u\<close> (the source's \<open>U\<close>).
  The source mutates the board in place through \<open>applyTransition\<close> and
  \<open>undoTransition\<close>; here both return the board they leave behind. A Luau
  \<open>number\<close> is modelled as a \<open>real\<close>: the search only compares numbers and takes
  \<open>math.max\<close> and \<open>math.min\<close> of them, so the model covers every run in which no
  callback returns NaN.
\<close>

record ('b, 'u) callbacks =
  calculateTransitions :: "'b \<Rightarrow> bool \<Rightarrow> 'u list"
  applyTransition :: "'b \<Rightarrow> 'u \<Rightarrow> 'b"
  undoTransition :: "'b \<Rightarrow> 'u \<Rightarrow> 'b"
  calculateBoard :: "'b \<Rightarrow> real"
  calculateEndState :: "'b \<Rightarrow> real"

text \<open>
  What the search does to the outside world, in the order it does it: each call of a
  callback (with the board it was called on), each call of \<open>math.random\<close> (with its
  two bounds) and the \<open>print\<close> of the final value.
\<close>

datatype ('b, 'u) event =
    CalculateTransitions 'b bool
  | CalculateEndState 'b
  | CalculateBoard 'b
  | ApplyTransition 'b 'u
  | UndoTransition 'b 'u
  | MathRandom nat nat
  | Print real

text \<open>
  The mutable state a run threads through: the board, the number of random draws made
  so far, and the events so far (oldest first).
\<close>

record ('b, 'u) world =
  board :: 'b
  draws :: nat
  trace :: "('b, 'u) event list"

text \<open>
  The variables of \<open>runMinimaxAlgorithm\<close> that the closure passed to \<open>forEach\<close>
  reads and assigns.
\<close>

record 'u locals =
  alpha :: real
  beta :: real
  best :: real
  bestTransitions :: "'u list"

type_synonym ('b, 'u) result = "('u option \<times> real) \<times> ('b, 'u) world"

section \<open>The callbacks and the random source, as steps on the world\<close>

definition emit :: "('b, 'u) event \<Rightarrow> ('b, 'u) world \<Rightarrow> ('b, 'u) world" where
  "emit e w = w\<lparr>trace := trace w @ [e]\<rparr>"

definition doCalculateTransitions ::
  "('b, 'u) callbacks \<Rightarrow> bool \<Rightarrow> ('b, 'u) world \<Rightarrow> 'u list \<times> ('b, 'u) world" where
  "doCalculateTransitions cb isOwnTurn w =
     (calculateTransitions cb (board w) isOwnTurn, emit (CalculateTransitions (board w) isOwnTurn) w)"

definition doCalculateEndState ::
  "('b, 'u) callbacks \<Rightarrow> ('b, 'u) world \<Rightarrow> real \<times> ('b, 'u) world" where
  "doCalculateEndState cb w = (calculateEndState cb (board w), emit (CalculateEndState (board w)) w)"

definition doCalculateBoard ::
  "('b, 'u) callbacks \<Rightarrow> ('b, 'u) world \<Rightarrow> real \<times> ('b, 'u) world" where
  "doCalculateBoard cb w = (calculateBoard cb (board w), emit (CalculateBoard (board w)) w)"

definition doApplyTransition ::
  "('b, 'u) callbacks \<Rightarrow> 'u \<Rightarrow> ('b, 'u) world \<Rightarrow> ('b, 'u) world" where
  "doApplyTransition cb transition w =
     (emit (ApplyTransition (board w) transition) w)\<lparr>board := applyTransition cb (board w) transition\<rparr>"

definition doUndoTransition ::
  "('b, 'u) callbacks \<Rightarrow> 'u \<Rightarrow> ('b, 'u) world \<Rightarrow> ('b, 'u) world" where
  "doUndoTransition cb transition w =
     (emit (UndoTransition (board w) transition) w)\<lparr>board := undoTransition cb (board w) transition\<rparr>"

text \<open>
  \<open>math.random(m, n)\<close> returns an integer between \<open>m\<close> and \<open>n\<close>, both included. The
  random source is a sequence \<open>rnd\<close> of natural numbers, one per draw; the \<open>k\<close>-th draw
  reduces \<open>rnd k\<close> into the interval, so every outcome of every draw is some \<open>rnd\<close>.
  The search only draws with \<open>m = 0\<close> and \<open>n = size - 1\<close> of a non-empty array, so
  the interval is never empty (where Luau would raise).
\<close>

definition mathRandom ::
  "(nat \<Rightarrow> nat) \<Rightarrow> nat \<Rightarrow> nat \<Rightarrow> ('b, 'u) world \<Rightarrow> nat \<times> ('b, 'u) world" where
  "mathRandom rnd m n w =
     (m + rnd (draws w) mod (n - m + 1), (emit (MathRandom m n) w)\<lparr>draws := draws w + 1\<rparr>)"

section \<open>The search\<close>

text \<open>
  \<open>transitions.forEach(callback)\<close>: the callback runs on every element in order. A
  callback that does not return makes the loop not return (\<open>None\<close>).
\<close>

fun forEach :: "('a \<Rightarrow> 's \<Rightarrow> 's option) \<Rightarrow> 'a list \<Rightarrow> 's \<Rightarrow> 's option" where
  "forEach callback [] s = Some s"
| "forEach callback (x # xs) s =
     (case callback x s of None \<Rightarrow> None | Some s' \<Rightarrow> forEach callback xs s')"

text \<open>
  The comparison of a child's value with the running best (lines 112 to 123).
\<close>

definition overwriteBest :: "bool \<Rightarrow> 'u \<Rightarrow> real \<Rightarrow> 'u locals \<Rightarrow> 'u locals" where
  "overwriteBest isMax transition calculatedValue l =
     (if calculatedValue = best l then l\<lparr>bestTransitions := bestTransitions l @ [transition]\<rparr>
      else if (isMax \<and> calculatedValue > best l) \<or> (\<not> isMax \<and> calculatedValue < best l) then
        (let l1 = l\<lparr>best := calculatedValue, bestTransitions := [transition]\<rparr>
         in if isMax then l1\<lparr>alpha := max (alpha l1) (best l1)\<rparr>
            else l1\<lparr>beta := min (beta l1) (best l1)\<rparr>)
      else l)"

text \<open>
  The closure passed to \<open>forEach\<close> (lines 88 to 127); \<open>recurse\<close> is the recursive
  call of line 97 with the arguments the closure does not change already given.
\<close>

definition visit ::
  "(('b, 'u) world \<Rightarrow> real \<Rightarrow> real \<Rightarrow> ('b, 'u) result option) \<Rightarrow> ('b, 'u) callbacks \<Rightarrow> bool \<Rightarrow>
   'u \<Rightarrow> 'u locals \<times> ('b, 'u) world \<Rightarrow> ('u locals \<times> ('b, 'u) world) option" where
  "visit recurse cb isMax transition s =
     (let (l, w) = s in
      if alpha l > beta l then Some (l, w)
      else
        (case recurse (doApplyTransition cb transition w) (alpha l) (beta l) of
           None \<Rightarrow> None
         | Some ((_, calculatedValue), w') \<Rightarrow>
             Some (overwriteBest isMax transition calculatedValue l, doUndoTransition cb transition w')))"

lemma forEach_mono [partial_function_mono]:
  assumes "\<And>x s. mono_option (\<lambda>f. callback f x s)"
  shows "mono_option (\<lambda>f. forEach (callback f) xs s)"
proof (induction xs arbitrary: s)
  case Nil
  show ?case by (simp add: option.const_mono)
next
  case (Cons x xs)
  have "mono_option (\<lambda>f. Option.bind (callback f x s) (\<lambda>s'. forEach (callback f) xs s'))"
    by (rule bind_mono [OF assms Cons.IH])
  moreover have "(\<lambda>f. forEach (callback f) (x # xs) s) =
      (\<lambda>f. Option.bind (callback f x s) (\<lambda>s'. forEach (callback f) xs s'))"
    by (auto simp: fun_eq_iff split: option.splits)
  ultimately show ?case by simp
qed

lemma visit_mono [partial_function_mono]:
  assumes "\<And>w a b. mono_option (\<lambda>f. recurse f w a b)"
  shows "mono_option (\<lambda>f. visit (recurse f) cb isMax transition s)"
proof -
  obtain l w where s: "s = (l, w)" by (cases s)
  have "mono_option (\<lambda>f. Option.bind (recurse f (doApplyTransition cb transition w) (alpha l) (beta l))
          (\<lambda>r. Some (overwriteBest isMax transition (snd (fst r)) l, doUndoTransition cb transition (snd r))))"
    by (rule bind_mono [OF assms option.const_mono])
  moreover have "(\<lambda>f. case recurse f (doApplyTransition cb transition w) (alpha l) (beta l) of
           None \<Rightarrow> None
         | Some ((_, calculatedValue), w') \<Rightarrow>
             Some (overwriteBest isMax transition calculatedValue l, doUndoTransition cb transition w')) =
     (\<lambda>f. Option.bind (recurse f (doApplyTransition cb transition w) (alpha l) (beta l))
          (\<lambda>r. Some (overwriteBest isMax transition (snd (fst r)) l, doUndoTransition cb transition (snd r))))"
    by (auto simp: fun_eq_iff split: option.splits)
  ultimately show ?thesis
    unfolding visit_def s by (simp add: if_mono option.const_mono)
qed

text \<open>
  \<open>runMinimaxAlgorithm\<close> (lines 53 to 135). \<open>depth\<close> and \<open>maxDepth\<close> count levels
  and are natural numbers (the header comment: "the number of levels deep we want to
  check"). The source recurses until \<open>depth === maxDepth\<close> and has no other bound, so
  with \<open>depth\<close> beyond \<open>maxDepth\<close> it descends for as long as the game has moves;
  the model is therefore a partial function, and \<open>None\<close> is a run that does not return.
  What the source returns as a \<open>LuaTuple\<close> is the pair of the transition and the
  value; \<open>rnd\<close> is the random source and \<open>w\<close> the world with the board.
\<close>

partial_function (option) runMinimaxAlgorithm ::
  "(nat \<Rightarrow> nat) \<Rightarrow> ('b, 'u) callbacks \<Rightarrow> ('b, 'u) world \<Rightarrow> nat \<Rightarrow> nat \<Rightarrow> bool \<Rightarrow> real \<Rightarrow> real \<Rightarrow>
   ('b, 'u) result option" where
  "runMinimaxAlgorithm rnd cb w depth maxDepth isMax alpha0 beta0 =
     (if depth = maxDepth then
        (let (v, w1) = doCalculateBoard cb w in Some ((None, v), w1))
      else
        (let (transitions, w1) = doCalculateTransitions cb isMax w;
             (isEndState, w2) = doCalculateEndState cb w1
         in if isEndState < 0 then Some ((None, - 9000000000 + 1), w2)
            else if isEndState > 0 then Some ((None, 9000000000 - 1), w2)
            else if length transitions = 0 then Some ((None, 0), w2)
            else
              do {
                (l, w3) \<leftarrow>
                  forEach
                    (visit (\<lambda>w' a b. runMinimaxAlgorithm rnd cb w' (depth + 1) maxDepth (\<not> isMax) a b)
                       cb isMax)
                    transitions
                    (\<lparr>alpha = alpha0, beta = beta0,
                      best = (if isMax then - 9000000000 else 9000000000),
                      bestTransitions = []\<rparr>, w2);
                if length (bestTransitions l) = 0 then Some ((None, best l), w3)
                else
                  (let (i, w4) = mathRandom rnd 0 (length (bestTransitions l) - 1) w3
                   in Some ((Some (bestTransitions l ! i), best l), w4))
              }))"

declare runMinimaxAlgorithm.simps [code]

text \<open>
  \<open>Minimax\<close> (lines 27 to 51): the search from depth 0 as the maximizer, between
  \<open>-9e9\<close> and \<open>9e9\<close>; it prints the value and returns the transition.
\<close>

definition Minimax ::
  "(nat \<Rightarrow> nat) \<Rightarrow> ('b, 'u) callbacks \<Rightarrow> ('b, 'u) world \<Rightarrow> nat \<Rightarrow> ('u option \<times> ('b, 'u) world) option" where
  "Minimax rnd cb w maxDepth =
     (case runMinimaxAlgorithm rnd cb w 0 maxDepth True (- 9000000000) 9000000000 of
        None \<Rightarrow> None
      | Some ((transition, v), w') \<Rightarrow> Some (transition, emit (Print v) w'))"

section \<open>The exhaustive minimax of the specification\<close>

text \<open>
  This definition follows the specification's words, not the source: the "exhaustive
  (non-pruned) full minimax over the same tree". It has the terminals of the
  specification's section 4.2 (the depth limit, here \<open>n\<close> levels away, the end state,
  the position without moves) and, at every other node, the greatest (maximizer) or the
  least (minimizer) of the values of all children; it has no bounds, no cutoff and no
  running best. The tree is the one \<open>applyTransition\<close> spans from the board.
\<close>

fun fullMinimax :: "('b, 'u) callbacks \<Rightarrow> 'b \<Rightarrow> nat \<Rightarrow> bool \<Rightarrow> real" where
  "fullMinimax cb b 0 isMax = calculateBoard cb b"
| "fullMinimax cb b (Suc n) isMax =
     (if calculateEndState cb b < 0 then - 9000000000 + 1
      else if calculateEndState cb b > 0 then 9000000000 - 1
      else if calculateTransitions cb b isMax = [] then 0
      else if isMax then
        Max (set (map (\<lambda>t. fullMinimax cb (applyTransition cb b t) n (\<not> isMax))
                    (calculateTransitions cb b isMax)))
      else
        Min (set (map (\<lambda>t. fullMinimax cb (applyTransition cb b t) n (\<not> isMax))
                    (calculateTransitions cb b isMax))))"

section \<open>Names for the parts of a node\<close>

text \<open>
  The world after lines 70 and 73 (both callbacks have run), the locals as lines 58, 59,
  86 and 87 initialise them, and the result selection of lines 129 to 134.
\<close>

definition enter :: "('b, 'u) callbacks \<Rightarrow> bool \<Rightarrow> ('b, 'u) world \<Rightarrow> ('b, 'u) world" where
  "enter cb isMax w = emit (CalculateEndState (board w)) (emit (CalculateTransitions (board w) isMax) w)"

definition initial :: "bool \<Rightarrow> real \<Rightarrow> real \<Rightarrow> 'u locals" where
  "initial isMax a b =
     \<lparr>alpha = a, beta = b, best = (if isMax then - 9000000000 else 9000000000), bestTransitions = []\<rparr>"

definition pick :: "(nat \<Rightarrow> nat) \<Rightarrow> 'u locals \<times> ('b, 'u) world \<Rightarrow> ('b, 'u) result" where
  "pick rnd s =
     (let (l, w) = s in
      if length (bestTransitions l) = 0 then ((None, best l), w)
      else (let (i, w') = mathRandom rnd 0 (length (bestTransitions l) - 1) w
            in ((Some (bestTransitions l ! i), best l), w')))"


text \<open>
  The recursive call of line 97, as a function of what the closure passes on: the world
  and the current bounds.
\<close>

definition descend ::
  "(nat \<Rightarrow> nat) \<Rightarrow> ('b, 'u) callbacks \<Rightarrow> nat \<Rightarrow> nat \<Rightarrow> bool \<Rightarrow>
   ('b, 'u) world \<Rightarrow> real \<Rightarrow> real \<Rightarrow> ('b, 'u) result option" where
  "descend rnd cb depth maxDepth isMax =
     (\<lambda>w' a b. runMinimaxAlgorithm rnd cb w' (depth + 1) maxDepth (\<not> isMax) a b)"

section \<open>A small game to run the search on\<close>

text \<open>
  The board is the list of moves made so far; both players can append 0 or 1 until two
  moves are made; a board is worth the last digit of the sum of its moves; nobody ever
  wins or loses.
\<close>

definition lineGame :: "(nat list, nat) callbacks" where
  "lineGame = \<lparr>calculateTransitions = (\<lambda>b isOwnTurn. if length b < 2 then [0, 1] else []),
     applyTransition = (\<lambda>b t. b @ [t]),
     undoTransition = (\<lambda>b t. butlast b),
     calculateBoard = (\<lambda>b. real (sum_list b mod 10)),
     calculateEndState = (\<lambda>b. 0)\<rparr>"

definition start :: "(nat list, nat) world" where
  "start = \<lparr>board = [], draws = 0, trace = []\<rparr>"

text \<open>
  A game of one move: from the root board \<open>None\<close> the moves are the indices of
  \<open>vals\<close>, move \<open>i\<close> leads to the board \<open>Some i\<close>, which is worth \<open>vals ! i\<close> and
  has no moves; \<open>e\<close> is what \<open>calculateEndState\<close> says at the root.
\<close>

definition leafGame :: "real \<Rightarrow> real list \<Rightarrow> (nat option, nat) callbacks" where
  "leafGame e vals = \<lparr>calculateTransitions = (\<lambda>b isOwnTurn. if b = None then [0 ..< length vals] else []),
     applyTransition = (\<lambda>b t. Some t),
     undoTransition = (\<lambda>b t. None),
     calculateBoard = (\<lambda>b. case b of None \<Rightarrow> 0 | Some i \<Rightarrow> if i < length vals then vals ! i else 0),
     calculateEndState = (\<lambda>b. if b = None then e else 0)\<rparr>"

definition root :: "(nat option, nat) world" where
  "root = \<lparr>board = None, draws = 0, trace = []\<rparr>"

text \<open>
  A game of two moves in which the search prunes: the board is the list of moves made
  so far, both players can append 0 or 1 until two moves are made, and the four final
  boards are worth 5, 6, 3 and 9. Below the first move 1 the minimizer finds 3, which
  puts beta under the alpha 5 that the first move 0 left, so the board worth 9 is
  never reached.
\<close>

definition pruneGame :: "(nat list, nat) callbacks" where
  "pruneGame = \<lparr>calculateTransitions = (\<lambda>b isOwnTurn. if length b < 2 then [0, 1] else []),
     applyTransition = (\<lambda>b t. b @ [t]),
     undoTransition = (\<lambda>b t. butlast b),
     calculateBoard = (\<lambda>b. if b = [0, 0] then 5 else if b = [0, 1] then 6
                          else if b = [1, 0] then 3 else if b = [1, 1] then 9 else 0),
     calculateEndState = (\<lambda>b. 0)\<rparr>"

section \<open>Counting what a run applies and undoes\<close>

fun applied :: "('b, 'u) event list \<Rightarrow> nat" where
  "applied [] = 0"
| "applied (ApplyTransition b t # es) = Suc (applied es)"
| "applied (e # es) = applied es"

fun undone :: "('b, 'u) event list \<Rightarrow> nat" where
  "undone [] = 0"
| "undone (UndoTransition b t # es) = Suc (undone es)"
| "undone (e # es) = undone es"

text \<open>
  The second world continues the trace of the first, with as many transitions undone
  as applied in between.
\<close>

definition grows :: "('b, 'u) world \<Rightarrow> ('b, 'u) world \<Rightarrow> bool" where
  "grows w w' = (\<exists>rest. trace w' = trace w @ rest \<and> applied rest = undone rest)"

section \<open>Where a member of the best set comes from\<close>

text \<open>
  Transition \<open>t\<close> is an element of the enumerated list \<open>ts\<close>, the loop reached it
  from \<open>(l, w)\<close> without the bounds having crossed, and the recursive call made for
  it returned the value \<open>x\<close>.
\<close>

definition visitedWith ::
  "(('b, 'u) world \<Rightarrow> real \<Rightarrow> real \<Rightarrow> ('b, 'u) result option) \<Rightarrow> ('b, 'u) callbacks \<Rightarrow> bool \<Rightarrow>
   'u list \<Rightarrow> 'u locals \<Rightarrow> ('b, 'u) world \<Rightarrow> 'u \<Rightarrow> real \<Rightarrow> bool" where
  "visitedWith recurse cb isMax ts l w t x =
     (\<exists>pre post l0 w0 u w1. ts = pre @ t # post \<and>
        forEach (visit recurse cb isMax) pre (l, w) = Some (l0, w0) \<and> \<not> alpha l0 > beta l0 \<and>
        recurse (doApplyTransition cb t w0) (alpha l0) (beta l0) = Some ((u, x), w1))"

section \<open>What a pruned value says about the exhaustive one\<close>

text \<open>
  Between bounds \<open>a \<le> b\<close>, the engine's value \<open>r\<close> of a node whose exhaustive value
  is \<open>v\<close>: equal to \<open>v\<close> when \<open>v\<close> lies within the bounds, and otherwise on the same
  side of the bounds as \<open>v\<close>, strictly outside, and no further out than \<open>v\<close>.
\<close>

definition bracket :: "real \<Rightarrow> real \<Rightarrow> real \<Rightarrow> real \<Rightarrow> bool" where
  "bracket a b v r =
     ((a \<le> v \<and> v \<le> b \<longrightarrow> r = v) \<and> (v < a \<longrightarrow> v \<le> r \<and> r < a) \<and> (b < v \<longrightarrow> b < r \<and> r \<le> v))"

section \<open>Unfolding the search\<close>

lemma emit_simps [simp]:
  "board (emit e w) = board w"
  "draws (emit e w) = draws w"
  "trace (emit e w) = trace w @ [e]"
  by (simp_all add: emit_def)

lemma doApplyTransition_simps [simp]:
  "board (doApplyTransition cb t w) = applyTransition cb (board w) t"
  "draws (doApplyTransition cb t w) = draws w"
  "trace (doApplyTransition cb t w) = trace w @ [ApplyTransition (board w) t]"
  by (simp_all add: doApplyTransition_def)

lemma doUndoTransition_simps [simp]:
  "board (doUndoTransition cb t w) = undoTransition cb (board w) t"
  "draws (doUndoTransition cb t w) = draws w"
  "trace (doUndoTransition cb t w) = trace w @ [UndoTransition (board w) t]"
  by (simp_all add: doUndoTransition_def)

lemma enter_simps [simp]:
  "board (enter cb isMax w) = board w"
  "draws (enter cb isMax w) = draws w"
  "trace (enter cb isMax w) = trace w @ [CalculateTransitions (board w) isMax, CalculateEndState (board w)]"
  by (simp_all add: enter_def)

lemma initial_simps [simp]:
  "alpha (initial isMax a b) = a"
  "beta (initial isMax a b) = b"
  "best (initial isMax a b) = (if isMax then - 9000000000 else 9000000000)"
  "bestTransitions (initial isMax a b) = []"
  by (simp_all add: initial_def)

lemma run_leaf:
  "runMinimaxAlgorithm rnd cb w d d isMax a b =
     Some ((None, calculateBoard cb (board w)), emit (CalculateBoard (board w)) w)"
  by (subst runMinimaxAlgorithm.simps) (simp add: doCalculateBoard_def)

lemma run_node:
  assumes "depth \<noteq> maxDepth"
  shows "runMinimaxAlgorithm rnd cb w depth maxDepth isMax a b =
     (if calculateEndState cb (board w) < 0 then Some ((None, - 8999999999), enter cb isMax w)
      else if calculateEndState cb (board w) > 0 then Some ((None, 8999999999), enter cb isMax w)
      else if calculateTransitions cb (board w) isMax = [] then Some ((None, 0), enter cb isMax w)
      else map_option (pick rnd)
        (forEach (visit (descend rnd cb depth maxDepth isMax) cb isMax)
           (calculateTransitions cb (board w) isMax) (initial isMax a b, enter cb isMax w)))"
  using assms unfolding descend_def
  by (subst runMinimaxAlgorithm.simps)
     (auto simp: doCalculateTransitions_def doCalculateEndState_def enter_def initial_def pick_def
        Let_def map_option_case split: option.splits prod.splits bind_splits)

lemma run_node_cases [consumes 2, case_names loss win stalemate inner]:
  assumes "depth \<noteq> maxDepth"
    and "runMinimaxAlgorithm rnd cb w depth maxDepth isMax a b = Some res"
  obtains
    "calculateEndState cb (board w) < 0" and "res = ((None, - 8999999999), enter cb isMax w)"
  | "calculateEndState cb (board w) > 0" and "res = ((None, 8999999999), enter cb isMax w)"
  | "calculateEndState cb (board w) = 0" and "calculateTransitions cb (board w) isMax = []"
      and "res = ((None, 0), enter cb isMax w)"
  | l w3 where "calculateEndState cb (board w) = 0"
      and "calculateTransitions cb (board w) isMax \<noteq> []"
      and "forEach (visit (descend rnd cb depth maxDepth isMax) cb isMax)
             (calculateTransitions cb (board w) isMax) (initial isMax a b, enter cb isMax w) = Some (l, w3)"
      and "res = pick rnd (l, w3)"
  using assms(2) unfolding run_node [OF assms(1)]
  by (auto split: if_splits)

lemma visit_cut:
  "alpha l > beta l \<Longrightarrow> visit recurse cb isMax t (l, w) = Some (l, w)"
  by (simp add: visit_def)

lemma visit_go:
  "\<not> alpha l > beta l \<Longrightarrow>
   visit recurse cb isMax t (l, w) =
     map_option (\<lambda>r. (overwriteBest isMax t (snd (fst r)) l, doUndoTransition cb t (snd r)))
       (recurse (doApplyTransition cb t w) (alpha l) (beta l))"
  by (auto simp: visit_def map_option_case split: option.splits)

lemma forEach_cut:
  "alpha l > beta l \<Longrightarrow> forEach (visit recurse cb isMax) ts (l, w) = Some (l, w)"
  by (induction ts) (simp_all add: visit_cut)

lemma visit_total:
  assumes "\<And>w a b. \<exists>r. recurse w a b = Some r"
  shows "\<exists>s'. visit recurse cb isMax t s = Some s'"
proof -
  obtain l w where s: "s = (l, w)" by (cases s)
  obtain r where "recurse (doApplyTransition cb t w) (alpha l) (beta l) = Some r"
    using assms by blast
  then show ?thesis
    unfolding s by (cases "alpha l > beta l") (simp_all add: visit_cut visit_go)
qed

lemma forEach_total:
  assumes "\<And>x s. \<exists>s'. callback x s = Some s'"
  shows "\<exists>s'. forEach callback xs s = Some s'"
proof (induction xs arbitrary: s)
  case Nil
  show ?case by simp
next
  case (Cons x xs)
  obtain s1 where "callback x s = Some s1" using assms by blast
  then show ?case using Cons.IH [of s1] by simp
qed

lemma forEach_visit_total:
  assumes "\<And>w a b. \<exists>r. recurse w a b = Some r"
  shows "\<exists>s'. forEach (visit recurse cb isMax) ts s = Some s'"
  by (rule forEach_total) (rule visit_total, rule assms)

lemma run_total:
  "depth \<le> maxDepth \<Longrightarrow> \<exists>r. runMinimaxAlgorithm rnd cb w depth maxDepth isMax a b = Some r"
proof (induction "maxDepth - depth" arbitrary: depth w isMax a b)
  case 0
  then show ?case by (simp add: run_leaf)
next
  case (Suc n)
  then have ne: "depth \<noteq> maxDepth" and "n = maxDepth - (depth + 1)" "depth + 1 \<le> maxDepth" by auto
  with Suc.hyps(1)
  have "\<And>w a b. \<exists>r. descend rnd cb depth maxDepth isMax w a b = Some r"
    unfolding descend_def by blast
  then obtain s' where "forEach (visit (descend rnd cb depth maxDepth isMax) cb isMax)
           (calculateTransitions cb (board w) isMax) (initial isMax a b, enter cb isMax w) = Some s'"
    using forEach_visit_total by blast
  then show ?case
    by (simp add: run_node [OF ne]) (metis surj_pair)
qed

lemma leafGame_simps [simp]:
  "calculateTransitions (leafGame e vals) b isOwnTurn = (if b = None then [0 ..< length vals] else [])"
  "applyTransition (leafGame e vals) b t = Some t"
  "undoTransition (leafGame e vals) b t = None"
  "calculateBoard (leafGame e vals) None = 0"
  "calculateBoard (leafGame e vals) (Some i) = (if i < length vals then vals ! i else 0)"
  "calculateEndState (leafGame e vals) b = (if b = None then e else 0)"
  by (simp_all add: leafGame_def)

lemma lineGame_simps [simp]:
  "calculateTransitions lineGame b isOwnTurn = (if length b < 2 then [0, 1] else [])"
  "applyTransition lineGame b t = b @ [t]"
  "undoTransition lineGame b t = butlast b"
  "calculateBoard lineGame b = real (sum_list b mod 10)"
  "calculateEndState lineGame b = 0"
  by (simp_all add: lineGame_def)

text \<open>The equations that evaluate a run on a concrete game.\<close>

lemmas model_defs = Minimax_def runMinimaxAlgorithm.simps visit_def overwriteBest_def
  doApplyTransition_def doUndoTransition_def doCalculateBoard_def doCalculateEndState_def
  doCalculateTransitions_def emit_def mathRandom_def

lemma pruneGame_simps [simp]:
  "calculateTransitions pruneGame b isOwnTurn = (if length b < 2 then [0, 1] else [])"
  "applyTransition pruneGame b t = b @ [t]"
  "undoTransition pruneGame b t = butlast b"
  "calculateBoard pruneGame b = (if b = [0, 0] then 5 else if b = [0, 1] then 6
                          else if b = [1, 0] then 3 else if b = [1, 1] then 9 else 0)"
  "calculateEndState pruneGame b = 0"
  by (simp_all add: pruneGame_def)

lemma pruneGame_run:
  "runMinimaxAlgorithm (\<lambda>k. k) pruneGame start 0 2 True (- 9000000000) 9000000000 =
     Some ((Some 0, 5),
       \<lparr>board = [], draws = 3,
        trace =
          [CalculateTransitions [] True, CalculateEndState [],
           ApplyTransition [] 0, CalculateTransitions [0] False,
           CalculateEndState [0], ApplyTransition [0] 0,
           CalculateBoard [0, 0], UndoTransition [0, 0] 0,
           ApplyTransition [0] 1, CalculateBoard [0, 1],
           UndoTransition [0, 1] 1, MathRandom 0 0, UndoTransition [0] 0,
           ApplyTransition [] 1, CalculateTransitions [1] False,
           CalculateEndState [1], ApplyTransition [1] 0,
           CalculateBoard [1, 0], UndoTransition [1, 0] 0, MathRandom 0 0,
           UndoTransition [1] 1, MathRandom 0 0]\<rparr>)"
  by (simp add: model_defs start_def)

lemma pruneGame_undo:
  "\<forall>b m. \<forall>t \<in> set (calculateTransitions pruneGame b m).
      undoTransition pruneGame (applyTransition pruneGame b t) t = b"
  by simp

lemma pruneGame_heuristic:
  "\<forall>b. - 9000000000 \<le> calculateBoard pruneGame b \<and> calculateBoard pruneGame b \<le> 9000000000"
  by simp

section \<open>The trace of a run\<close>

lemma applied_append [simp]: "applied (xs @ ys) = applied xs + applied ys"
  by (induction xs rule: applied.induct) simp_all

lemma undone_append [simp]: "undone (xs @ ys) = undone xs + undone ys"
  by (induction xs rule: undone.induct) simp_all

lemma grows_refl: "grows w w"
  by (simp add: grows_def)

lemma grows_trans: "grows w w1 \<Longrightarrow> grows w1 w2 \<Longrightarrow> grows w w2"
  by (auto simp: grows_def)

lemma grows_bracket:
  "grows (doApplyTransition cb t w) w1 \<Longrightarrow> grows w (doUndoTransition cb t w1)"
  by (auto simp: grows_def)

lemma visit_trace:
  assumes "\<forall>w a b r w'. recurse w a b = Some (r, w') \<longrightarrow> grows w w'"
    and "visit recurse cb isMax t (l, w) = Some (l', w')"
  shows "grows w w'"
proof (cases "alpha l > beta l")
  case True
  with assms(2) show ?thesis by (simp add: visit_cut grows_refl)
next
  case False
  with assms(2) obtain r w1 where r: "recurse (doApplyTransition cb t w) (alpha l) (beta l) = Some (r, w1)"
    and w': "w' = doUndoTransition cb t w1"
    by (auto simp: visit_go)
  from assms(1) r have "grows (doApplyTransition cb t w) w1" by blast
  then show ?thesis unfolding w' by (rule grows_bracket)
qed

lemma forEach_visit_trace:
  assumes "\<forall>w a b r w'. recurse w a b = Some (r, w') \<longrightarrow> grows w w'"
    and "forEach (visit recurse cb isMax) ts (l, w) = Some (l', w')"
  shows "grows w w'"
  using assms(2)
proof (induction ts arbitrary: l w)
  case Nil
  then show ?case by (simp add: grows_refl)
next
  case (Cons t ts)
  then obtain l1 w1 where v: "visit recurse cb isMax t (l, w) = Some (l1, w1)"
    and f: "forEach (visit recurse cb isMax) ts (l1, w1) = Some (l', w')"
    by (auto split: option.splits)
  from visit_trace [OF assms(1) v] Cons.IH [OF f] show ?case by (rule grows_trans)
qed

lemma pick_trace: "pick rnd (l, w) = (r, w') \<Longrightarrow> grows w w'"
  by (auto simp: pick_def mathRandom_def grows_def split: if_splits)

lemma enter_grows: "grows w (enter cb isMax w)"
  by (simp add: grows_def)

lemma run_trace:
  "depth \<le> maxDepth \<Longrightarrow> runMinimaxAlgorithm rnd cb w depth maxDepth isMax a b = Some (r, w') \<Longrightarrow>
   grows w w'"
proof (induction "maxDepth - depth" arbitrary: depth w isMax a b r w')
  case 0
  then show ?case by (auto simp: run_leaf grows_def)
next
  case (Suc n)
  then have ne: "depth \<noteq> maxDepth" and n: "n = maxDepth - (depth + 1)" "depth + 1 \<le> maxDepth" by auto
  have rec: "\<forall>w a b r w'. descend rnd cb depth maxDepth isMax w a b = Some (r, w') \<longrightarrow> grows w w'"
    unfolding descend_def using Suc.hyps(1) [OF n] by blast
  from ne Suc.prems(2) show ?case
  proof (cases rule: run_node_cases)
    case (inner l w3)
    from forEach_visit_trace [OF rec inner(3)] pick_trace [OF inner(4) [symmetric]] enter_grows [of w cb isMax]
    show ?thesis by (blast intro: grows_trans)
  qed (simp_all add: enter_grows)
qed

section \<open>The board after a run\<close>

lemma visit_board:
  assumes "undoTransition cb (applyTransition cb (board w) t) t = board w"
    and "\<forall>w a b r w'. recurse w a b = Some (r, w') \<longrightarrow> board w' = board w"
    and "visit recurse cb isMax t (l, w) = Some (l', w')"
  shows "board w' = board w"
proof (cases "alpha l > beta l")
  case True
  with assms(3) show ?thesis by (simp add: visit_cut)
next
  case False
  with assms(3) obtain r w1 where r: "recurse (doApplyTransition cb t w) (alpha l) (beta l) = Some (r, w1)"
    and w': "w' = doUndoTransition cb t w1"
    by (auto simp: visit_go)
  from assms(2) r have "board w1 = applyTransition cb (board w) t" by fastforce
  then show ?thesis by (simp add: w' assms(1))
qed

lemma forEach_visit_board:
  assumes "\<forall>w a b r w'. recurse w a b = Some (r, w') \<longrightarrow> board w' = board w"
  shows "forEach (visit recurse cb isMax) ts (l, w) = Some (l', w') \<Longrightarrow>
    \<forall>t \<in> set ts. undoTransition cb (applyTransition cb (board w) t) t = board w \<Longrightarrow>
    board w' = board w"
proof (induction ts arbitrary: l w)
  case Nil
  then show ?case by simp
next
  case (Cons t ts)
  from Cons.prems(1) obtain l1 w1 where v: "visit recurse cb isMax t (l, w) = Some (l1, w1)"
    and f: "forEach (visit recurse cb isMax) ts (l1, w1) = Some (l', w')"
    by (auto split: option.splits)
  from Cons.prems(2) have "undoTransition cb (applyTransition cb (board w) t) t = board w"
    by simp
  from visit_board [OF this assms v] have bw: "board w1 = board w" .
  with Cons.prems(2) have "\<forall>t \<in> set ts. undoTransition cb (applyTransition cb (board w1) t) t = board w1"
    by simp
  from Cons.IH [OF f this] bw show ?case by simp
qed

lemma pick_board: "pick rnd (l, w) = (r, w') \<Longrightarrow> board w' = board w"
  by (auto simp: pick_def mathRandom_def split: if_splits)

lemma run_board:
  assumes "\<forall>b m. \<forall>t \<in> set (calculateTransitions cb b m).
      undoTransition cb (applyTransition cb b t) t = b"
  shows "depth \<le> maxDepth \<Longrightarrow> runMinimaxAlgorithm rnd cb w depth maxDepth isMax a b = Some (r, w') \<Longrightarrow>
   board w' = board w"
proof (induction "maxDepth - depth" arbitrary: depth w isMax a b r w')
  case 0
  then show ?case by (auto simp: run_leaf)
next
  case (Suc n)
  then have ne: "depth \<noteq> maxDepth" and n: "n = maxDepth - (depth + 1)" "depth + 1 \<le> maxDepth" by auto
  have rec: "\<forall>w a b r w'. descend rnd cb depth maxDepth isMax w a b = Some (r, w') \<longrightarrow> board w' = board w"
    unfolding descend_def using Suc.hyps(1) [OF n] by blast
  from ne Suc.prems(2) show ?case
  proof (cases rule: run_node_cases)
    case (inner l w3)
    have "\<forall>t \<in> set (calculateTransitions cb (board w) isMax).
        undoTransition cb (applyTransition cb (board (enter cb isMax w)) t) t = board (enter cb isMax w)"
      using assms by simp
    from forEach_visit_board [OF rec inner(3) this] pick_board [OF inner(4) [symmetric]]
    show ?thesis by auto
  qed auto
qed

section \<open>Two runs that differ in the random draws\<close>

lemma visit_agree:
  assumes "\<forall>w v a b r r' w' v'. recurse w a b = Some (r, w') \<and> recurse' v a b = Some (r', v') \<and>
      board w = board v \<longrightarrow> snd r = snd r' \<and> board w' = board v'"
    and "visit recurse cb isMax t (l, w) = Some (l1, w1)"
    and "visit recurse' cb isMax t (l, v) = Some (l2, v1)"
    and "board w = board v"
  shows "l1 = l2 \<and> board w1 = board v1"
proof (cases "alpha l > beta l")
  case True
  with assms(2,3,4) show ?thesis by (simp add: visit_cut)
next
  case False
  with assms(2) obtain r w2 where r: "recurse (doApplyTransition cb t w) (alpha l) (beta l) = Some (r, w2)"
    and 1: "l1 = overwriteBest isMax t (snd r) l" "w1 = doUndoTransition cb t w2"
    by (auto simp: visit_go)
  from False assms(3) obtain r' v2 where r': "recurse' (doApplyTransition cb t v) (alpha l) (beta l) = Some (r', v2)"
    and 2: "l2 = overwriteBest isMax t (snd r') l" "v1 = doUndoTransition cb t v2"
    by (auto simp: visit_go)
  have "board (doApplyTransition cb t w) = board (doApplyTransition cb t v)"
    using assms(4) by simp
  with assms(1) r r' have "snd r = snd r' \<and> board w2 = board v2" by blast
  then show ?thesis by (simp add: 1 2)
qed

lemma forEach_visit_agree:
  assumes "\<forall>w v a b r r' w' v'. recurse w a b = Some (r, w') \<and> recurse' v a b = Some (r', v') \<and>
      board w = board v \<longrightarrow> snd r = snd r' \<and> board w' = board v'"
    and "forEach (visit recurse cb isMax) ts (l, w) = Some (l1, w1)"
    and "forEach (visit recurse' cb isMax) ts (l, v) = Some (l2, v1)"
    and "board w = board v"
  shows "l1 = l2 \<and> board w1 = board v1"
  using assms(2,3,4)
proof (induction ts arbitrary: l w v)
  case Nil
  then show ?case by simp
next
  case (Cons t ts)
  from Cons.prems(1) obtain la wa where a: "visit recurse cb isMax t (l, w) = Some (la, wa)"
    and fa: "forEach (visit recurse cb isMax) ts (la, wa) = Some (l1, w1)"
    by (auto split: option.splits)
  from Cons.prems(2) obtain lb vb where b: "visit recurse' cb isMax t (l, v) = Some (lb, vb)"
    and fb: "forEach (visit recurse' cb isMax) ts (lb, vb) = Some (l2, v1)"
    by (auto split: option.splits)
  from visit_agree [OF assms(1) a b Cons.prems(3)] have "la = lb" "board wa = board vb" by simp_all
  with Cons.IH [of la wa vb] fa fb show ?case by simp
qed

lemma pick_agree:
  assumes "pick rnd (l, w) = ((t, x), w')" and "pick rnd' (l, v) = ((t', x'), v')" and "board w = board v"
  shows "x = x' \<and> (t = None \<longleftrightarrow> t' = None) \<and> board w' = board v'"
  using assms by (auto simp: pick_def mathRandom_def split: if_splits)

lemma run_agree:
  "depth \<le> maxDepth \<Longrightarrow>
   runMinimaxAlgorithm rnd cb w depth maxDepth isMax a b = Some ((t, x), w') \<Longrightarrow>
   runMinimaxAlgorithm rnd' cb v depth maxDepth isMax a b = Some ((t', x'), v') \<Longrightarrow>
   board w = board v \<Longrightarrow>
   x = x' \<and> (t = None \<longleftrightarrow> t' = None) \<and> board w' = board v'"
proof (induction "maxDepth - depth" arbitrary: depth w v isMax a b t x w' t' x' v')
  case 0
  then show ?case by (auto simp: run_leaf)
next
  case (Suc n)
  then have ne: "depth \<noteq> maxDepth" and n: "n = maxDepth - (depth + 1)" "depth + 1 \<le> maxDepth" by auto
  have rec: "\<forall>w v a b r r' w' v'. descend rnd cb depth maxDepth isMax w a b = Some (r, w') \<and>
      descend rnd' cb depth maxDepth isMax v a b = Some (r', v') \<and>
      board w = board v \<longrightarrow> snd r = snd r' \<and> board w' = board v'"
    unfolding descend_def using Suc.hyps(1) [OF n] by (metis prod.collapse)
  note eq = \<open>board w = board v\<close>
  from ne Suc.prems(2) show ?case
  proof (cases rule: run_node_cases)
    case loss
    with ne Suc.prems(3) eq show ?thesis by (auto simp: run_node)
  next
    case win
    with ne Suc.prems(3) eq show ?thesis by (auto simp: run_node)
  next
    case stalemate
    with ne Suc.prems(3) eq show ?thesis by (auto simp: run_node)
  next
    case (inner l w3)
    from ne Suc.prems(3) inner(1,2) eq obtain l' v3 where
      f: "forEach (visit (descend rnd' cb depth maxDepth isMax) cb isMax)
             (calculateTransitions cb (board w) isMax) (initial isMax a b, enter cb isMax v) = Some (l', v3)"
      and p: "((t', x'), v') = pick rnd' (l', v3)"
      by (auto simp: run_node)
    have "board (enter cb isMax w) = board (enter cb isMax v)" using eq by simp
    from forEach_visit_agree [OF rec inner(3) f this] have "l = l'" "board w3 = board v3" by simp_all
    with pick_agree [OF inner(4) [symmetric] p [symmetric, unfolded \<open>l = l'\<close> [symmetric]]]
    show ?thesis by simp
  qed
qed

section \<open>The running best and its set\<close>

lemma overwriteBest_equal:
  "v = best l \<Longrightarrow> overwriteBest isMax t v l = l\<lparr>bestTransitions := bestTransitions l @ [t]\<rparr>"
  by (simp add: overwriteBest_def)

lemma overwriteBest_better_max:
  "best l < v \<Longrightarrow>
   overwriteBest True t v l = l\<lparr>best := v, bestTransitions := [t], alpha := max (alpha l) v\<rparr>"
  by (simp add: overwriteBest_def)

lemma overwriteBest_better_min:
  "v < best l \<Longrightarrow>
   overwriteBest False t v l = l\<lparr>best := v, bestTransitions := [t], beta := min (beta l) v\<rparr>"
  by (simp add: overwriteBest_def)

lemma overwriteBest_worse:
  "v \<noteq> best l \<Longrightarrow> \<not> (if isMax then best l < v else v < best l) \<Longrightarrow> overwriteBest isMax t v l = l"
  by (auto simp: overwriteBest_def)

lemma overwriteBest_cases:
  obtains "v = best l" and "overwriteBest isMax t v l = l\<lparr>bestTransitions := bestTransitions l @ [t]\<rparr>"
  | "isMax" and "best l < v"
      and "overwriteBest isMax t v l = l\<lparr>best := v, bestTransitions := [t], alpha := max (alpha l) v\<rparr>"
  | "\<not> isMax" and "v < best l"
      and "overwriteBest isMax t v l = l\<lparr>best := v, bestTransitions := [t], beta := min (beta l) v\<rparr>"
  | "v \<noteq> best l" and "\<not> (if isMax then best l < v else v < best l)"
      and "overwriteBest isMax t v l = l"
proof -
  consider "v = best l" | "isMax" "best l < v" | "\<not> isMax" "v < best l"
    | "v \<noteq> best l" "\<not> (if isMax then best l < v else v < best l)"
    by (cases isMax) auto
  then show ?thesis
  proof cases
    case 1
    then show ?thesis by (intro that(1)) (simp_all add: overwriteBest_equal)
  next
    case 2
    then show ?thesis by (intro that(2)) (simp_all add: overwriteBest_better_max)
  next
    case 3
    then show ?thesis by (intro that(3)) (simp_all add: overwriteBest_better_min)
  next
    case 4
    then show ?thesis by (intro that(4)) (simp_all add: overwriteBest_worse)
  qed
qed

lemma visit_cases [consumes 1, case_names cut go]:
  assumes "visit recurse cb isMax t (l, w) = Some (l', w')"
  obtains "alpha l > beta l" and "l' = l" and "w' = w"
  | u v w1 where "\<not> alpha l > beta l"
      and "recurse (doApplyTransition cb t w) (alpha l) (beta l) = Some ((u, v), w1)"
      and "l' = overwriteBest isMax t v l" and "w' = doUndoTransition cb t w1"
  using assms by (cases "alpha l > beta l") (auto simp: visit_cut visit_go)

lemma forEach_Cons_cases:
  assumes "forEach callback (x # xs) s = Some s'"
  obtains s1 where "callback x s = Some s1" and "forEach callback xs s1 = Some s'"
  using assms by (auto split: option.splits)

lemma forEach_append:
  "forEach callback (xs @ ys) s =
     (case forEach callback xs s of None \<Rightarrow> None | Some s' \<Rightarrow> forEach callback ys s')"
  by (induction xs arbitrary: s) (auto split: option.splits)

lemma overwriteBest_eq:
  "overwriteBest isMax t v l =
     (if v = best l then l\<lparr>bestTransitions := bestTransitions l @ [t]\<rparr>
      else if isMax \<and> best l < v then l\<lparr>best := v, bestTransitions := [t], alpha := max (alpha l) v\<rparr>
      else if \<not> isMax \<and> v < best l then l\<lparr>best := v, bestTransitions := [t], beta := min (beta l) v\<rparr>
      else l)"
  by (cases rule: overwriteBest_cases [of v l isMax t]) (auto split: if_splits)

lemma visitedWith_here:
  assumes "\<not> alpha l > beta l"
    and "recurse (doApplyTransition cb t w) (alpha l) (beta l) = Some ((u, x), w1)"
  shows "visitedWith recurse cb isMax (t # ts) l w t x"
proof -
  have "t # ts = [] @ t # ts" and "forEach (visit recurse cb isMax) [] (l, w) = Some (l, w)"
    by simp_all
  with assms show ?thesis unfolding visitedWith_def by blast
qed

lemma visitedWith_later:
  assumes "visit recurse cb isMax t0 (l, w) = Some (l1, w1)"
    and "visitedWith recurse cb isMax ts l1 w1 t x"
  shows "visitedWith recurse cb isMax (t0 # ts) l w t x"
proof -
  from assms(2) obtain pre post l0 w0 u w2 where *: "ts = pre @ t # post"
    "forEach (visit recurse cb isMax) pre (l1, w1) = Some (l0, w0)" "\<not> alpha l0 > beta l0"
    "recurse (doApplyTransition cb t w0) (alpha l0) (beta l0) = Some ((u, x), w2)"
    unfolding visitedWith_def by blast
  from *(1,2) assms(1) have "t0 # ts = (t0 # pre) @ t # post"
    and "forEach (visit recurse cb isMax) (t0 # pre) (l, w) = Some (l0, w0)"
    by simp_all
  with *(3,4) show ?thesis unfolding visitedWith_def by blast
qed

lemma forEach_visit_provenance:
  assumes "forEach (visit recurse cb isMax) ts (l, w) = Some (l', w')"
    and "t \<in> set (bestTransitions l')"
  shows "(t \<in> set (bestTransitions l) \<and> best l' = best l) \<or>
     visitedWith recurse cb isMax ts l w t (best l')"
  using assms(1)
proof (induction ts arbitrary: l w)
  case Nil
  with assms(2) show ?case by simp
next
  case (Cons t0 ts)
  from Cons.prems obtain s1 where "visit recurse cb isMax t0 (l, w) = Some s1"
    and "forEach (visit recurse cb isMax) ts s1 = Some (l', w')"
    by (rule forEach_Cons_cases)
  then obtain l1 w1 where v: "visit recurse cb isMax t0 (l, w) = Some (l1, w1)"
    and f: "forEach (visit recurse cb isMax) ts (l1, w1) = Some (l', w')"
    by (cases s1) auto
  from Cons.IH [OF f] consider
    (old) "t \<in> set (bestTransitions l1)" "best l' = best l1"
  | (new) "visitedWith recurse cb isMax ts l1 w1 t (best l')"
    by blast
  then show ?case
  proof cases
    case new
    with v show ?thesis by (simp add: visitedWith_later)
  next
    case old
    from v show ?thesis
    proof (cases rule: visit_cases)
      case cut
      with old show ?thesis by simp
    next
      case (go u x w2)
      have here: "visitedWith recurse cb isMax (t0 # ts) l w t0 x"
        using go(1,2) by (rule visitedWith_here [where recurse = recurse])
      show ?thesis
      proof (cases rule: overwriteBest_cases [of x l isMax t0])
        case 1
        with old go(3) have "t \<in> set (bestTransitions l) \<or> t = t0" and "best l' = best l" by auto
        with here 1(1) show ?thesis by auto
      next
        case 2
        with old go(3) have "t = t0" and "best l' = x" by auto
        with here show ?thesis by simp
      next
        case 3
        with old go(3) have "t = t0" and "best l' = x" by auto
        with here show ?thesis by simp
      next
        case 4
        with old go(3) show ?thesis by simp
      qed
    qed
  qed
qed

lemma pick_cases:
  assumes "pick rnd (l, w) = ((t, x), w')"
  obtains "bestTransitions l = []" and "t = None" and "x = best l" and "w' = w"
  | "bestTransitions l \<noteq> []" and "x = best l"
      and "t = Some (bestTransitions l ! (rnd (draws w) mod length (bestTransitions l)))"
      and "w' = (emit (MathRandom 0 (length (bestTransitions l) - 1)) w)\<lparr>draws := draws w + 1\<rparr>"
  using assms by (cases "bestTransitions l = []") (auto simp: pick_def mathRandom_def)


lemma pick_index:
  assumes "i < length (bestTransitions l)"
  shows "\<exists>w'. pick (\<lambda>k. i) (l, w) = ((Some (bestTransitions l ! i), best l), w')"
  using assms by (auto simp: pick_def mathRandom_def)

lemma forEach_visit_subset:
  assumes "forEach (visit recurse cb isMax) ts (l, w) = Some (l', w')"
  shows "set (bestTransitions l') \<subseteq> set (bestTransitions l) \<union> set ts"
proof
  fix t assume "t \<in> set (bestTransitions l')"
  from forEach_visit_provenance [OF assms this]
  show "t \<in> set (bestTransitions l) \<union> set ts"
    unfolding visitedWith_def by auto
qed

lemma overwriteBest_nonempty:
  "bestTransitions l \<noteq> [] \<Longrightarrow> bestTransitions (overwriteBest isMax t v l) \<noteq> []"
  by (cases rule: overwriteBest_cases [of v l isMax t]) simp_all

lemma forEach_visit_nonempty:
  assumes "forEach (visit recurse cb isMax) ts (l, w) = Some (l', w')"
    and "bestTransitions l \<noteq> []"
  shows "bestTransitions l' \<noteq> []"
  using assms
proof (induction ts arbitrary: l w)
  case Nil
  then show ?case by simp
next
  case (Cons t0 ts)
  from Cons.prems(1) obtain s1 where "visit recurse cb isMax t0 (l, w) = Some s1"
    and "forEach (visit recurse cb isMax) ts s1 = Some (l', w')"
    by (rule forEach_Cons_cases)
  then obtain l1 w1 where v: "visit recurse cb isMax t0 (l, w) = Some (l1, w1)"
    and f: "forEach (visit recurse cb isMax) ts (l1, w1) = Some (l', w')"
    by (cases s1) auto
  from v Cons.prems(2) have "bestTransitions l1 \<noteq> []"
    by (cases rule: visit_cases) (simp_all add: overwriteBest_nonempty)
  with Cons.IH [OF f] show ?case .
qed

text \<open>No value below \<open>-9e9\<close> comes back when no heuristic value is below it.\<close>

lemma forEach_visit_best_ge:
  assumes "\<forall>w a b u v w'. recurse w a b = Some ((u, v), w') \<longrightarrow> - 9000000000 \<le> v"
    and "forEach (visit recurse cb isMax) ts (l, w) = Some (l', w')"
    and "- 9000000000 \<le> best l"
  shows "- 9000000000 \<le> best l'"
  using assms(2,3)
proof (induction ts arbitrary: l w)
  case Nil
  then show ?case by simp
next
  case (Cons t0 ts)
  from Cons.prems(1) obtain s1 where "visit recurse cb isMax t0 (l, w) = Some s1"
    and "forEach (visit recurse cb isMax) ts s1 = Some (l', w')"
    by (rule forEach_Cons_cases)
  then obtain l1 w1 where v: "visit recurse cb isMax t0 (l, w) = Some (l1, w1)"
    and f: "forEach (visit recurse cb isMax) ts (l1, w1) = Some (l', w')"
    by (cases s1) auto
  from v have "- 9000000000 \<le> best l1"
  proof (cases rule: visit_cases)
    case cut
    with Cons.prems(2) show ?thesis by simp
  next
    case (go u x w2)
    from assms(1) go(2) have "- 9000000000 \<le> x" by blast
    with Cons.prems(2) go(3) show ?thesis
      by (cases rule: overwriteBest_cases [of x l isMax t0]) simp_all
  qed
  with Cons.IH [OF f] show ?case .
qed

lemma run_value_ge:
  assumes "\<forall>b. - 9000000000 \<le> calculateBoard cb b"
  shows "depth \<le> maxDepth \<Longrightarrow> runMinimaxAlgorithm rnd cb w depth maxDepth isMax a b = Some ((t, x), w') \<Longrightarrow>
    - 9000000000 \<le> x"
proof (induction "maxDepth - depth" arbitrary: depth w isMax a b t x w')
  case 0
  with assms show ?case by (auto simp: run_leaf)
next
  case (Suc n)
  then have ne: "depth \<noteq> maxDepth" and n: "n = maxDepth - (depth + 1)" "depth + 1 \<le> maxDepth" by auto
  have rec: "\<forall>w a b u v w'. descend rnd cb depth maxDepth isMax w a b = Some ((u, v), w') \<longrightarrow>
      - 9000000000 \<le> v"
    unfolding descend_def using Suc.hyps(1) [OF n] by blast
  from ne Suc.prems(2) show ?case
  proof (cases rule: run_node_cases)
    case (inner l w3)
    have "- 9000000000 \<le> best (initial isMax a b)" by simp
    from forEach_visit_best_ge [OF rec inner(3) this] inner(4) show ?thesis
      by (cases rule: pick_cases [OF inner(4) [symmetric]]) simp_all
  qed simp_all
qed

lemma first_visit_max_nonempty:
  assumes "\<forall>w a b u v w'. recurse w a b = Some ((u, v), w') \<longrightarrow> - 9000000000 \<le> v"
    and "visit recurse cb True t (l, w) = Some (l', w')"
    and "\<not> alpha l > beta l" and "best l = - 9000000000"
  shows "bestTransitions l' \<noteq> []"
  using assms(2)
proof (cases rule: visit_cases)
  case cut
  with assms(3) show ?thesis by simp
next
  case (go u x w2)
  from assms(1) go(2) have "- 9000000000 \<le> x" by blast
  with assms(4) go(3) show ?thesis
    by (cases rule: overwriteBest_cases [of x l True t]) simp_all
qed

section \<open>Pruning against the exhaustive minimax\<close>

lemma bracket_refl: "bracket a b v v"
  by (simp add: bracket_def)

lemma bracket_exact: "bracket a b v r \<Longrightarrow> a \<le> v \<Longrightarrow> v \<le> b \<Longrightarrow> r = v"
  by (simp add: bracket_def)

lemma bracket_step_max:
  assumes "a \<le> b" and "max a m \<le> b" and "bracket (max a m) b v rt"
    and "bracket a b (max (max m rt) M) r"
  shows "bracket a b (max (max v m) M) r"
  using assms unfolding bracket_def max_def by argo

lemma bracket_step_min:
  assumes "a \<le> b" and "a \<le> min b m" and "bracket a (min b m) v rt"
    and "bracket a b (min (min m rt) M) r"
  shows "bracket a b (min (min v m) M) r"
  using assms unfolding bracket_def min_def by argo

lemma bracket_cut_max: "a \<le> b \<Longrightarrow> b < max a m \<Longrightarrow> m \<le> F \<Longrightarrow> bracket a b F m"
  unfolding bracket_def by auto

lemma bracket_cut_min: "a \<le> b \<Longrightarrow> min b m < a \<Longrightarrow> F \<le> m \<Longrightarrow> bracket a b F m"
  unfolding bracket_def by auto

lemma fold_max_split: "\<exists>M. fold max vs p = max p M \<and> fold max vs q = max q (M::real)"
proof (induction vs arbitrary: p q)
  case Nil
  have "fold max [] p = max p (min p q) \<and> fold max [] q = max q (min p q)" by simp
  then show ?case by (rule exI)
next
  case (Cons v vs)
  from Cons [of "max v p" "max v q"] obtain M where
    "fold max vs (max v p) = max (max v p) M" "fold max vs (max v q) = max (max v q) M" by blast
  then have "fold max (v # vs) p = max p (max v M) \<and> fold max (v # vs) q = max q (max v M)"
    by (simp add: max.assoc max.left_commute max.commute)
  then show ?case by blast
qed

lemma fold_min_split: "\<exists>M. fold min vs p = min p M \<and> fold min vs q = min q (M::real)"
proof (induction vs arbitrary: p q)
  case Nil
  have "fold min [] p = min p (max p q) \<and> fold min [] q = min q (max p q)" by simp
  then show ?case by (rule exI)
next
  case (Cons v vs)
  from Cons [of "min v p" "min v q"] obtain M where
    "fold min vs (min v p) = min (min v p) M" "fold min vs (min v q) = min (min v q) M" by blast
  then have "fold min (v # vs) p = min p (min v M) \<and> fold min (v # vs) q = min q (min v M)"
    by (simp add: min.assoc min.left_commute min.commute)
  then show ?case by blast
qed

lemma fold_max_ge: "x \<le> fold max vs (x::real)"
  using fold_max_split [of vs x x] by auto

lemma fold_min_le: "fold min vs (x::real) \<le> x"
  using fold_min_split [of vs x x] by auto

lemma overwriteBest_max_fields:
  assumes "beta l = b0" and "alpha l = max a0 (best l)"
  shows "best (overwriteBest True t x l) = max (best l) x \<and>
         beta (overwriteBest True t x l) = b0 \<and>
         alpha (overwriteBest True t x l) = max a0 (max (best l) x)"
  using assms by (cases rule: overwriteBest_cases [of x l True t]) (auto simp: max_def)

lemma overwriteBest_min_fields:
  assumes "alpha l = a0" and "beta l = min b0 (best l)"
  shows "best (overwriteBest False t x l) = min (best l) x \<and>
         alpha (overwriteBest False t x l) = a0 \<and>
         beta (overwriteBest False t x l) = min b0 (min (best l) x)"
  using assms by (cases rule: overwriteBest_cases [of x l False t]) (auto simp: min_def)

lemma forEach_visit_max_bracket:
  fixes val :: "'b \<Rightarrow> real"
  assumes recB: "\<forall>w a b r w'. recurse w a b = Some (r, w') \<longrightarrow> board w' = board w"
    and rec: "\<forall>w a b u r w'. a \<le> b \<and> - 9000000000 \<le> a \<and> b \<le> 9000000000 \<and>
        recurse w a b = Some ((u, r), w') \<longrightarrow> bracket a b (val (board w)) r"
    and bounds: "a0 \<le> b0" "- 9000000000 \<le> a0" "b0 \<le> 9000000000"
  shows "forEach (visit recurse cb True) ts (l, w) = Some (l', w') \<Longrightarrow>
     beta l = b0 \<Longrightarrow> alpha l = max a0 (best l) \<Longrightarrow>
     \<forall>t \<in> set ts. undoTransition cb (applyTransition cb (board w) t) t = board w \<Longrightarrow>
     bracket a0 b0 (fold max (map (\<lambda>t. val (applyTransition cb (board w) t)) ts) (best l)) (best l')"
proof (induction ts arbitrary: l w)
  case Nil
  then show ?case by (simp add: bracket_refl)
next
  case (Cons t ts)
  let ?vals = "map (\<lambda>t. val (applyTransition cb (board w) t)) ts"
  let ?v = "val (applyTransition cb (board w) t)"
  let ?m = "best l"
  show ?case
  proof (cases "alpha l > beta l")
    case True
    from Cons.prems(1) have "l' = l" unfolding forEach_cut [OF True] by simp
    moreover have "bracket a0 b0 (fold max (?v # ?vals) ?m) ?m"
      using bounds(1) True Cons.prems(2,3) by (intro bracket_cut_max fold_max_ge) simp_all
    ultimately show ?thesis by simp
  next
    case False
    from Cons.prems(1) obtain s1 where "visit recurse cb True t (l, w) = Some s1"
      and "forEach (visit recurse cb True) ts s1 = Some (l', w')"
      by (rule forEach_Cons_cases)
    then obtain l1 w1 where v: "visit recurse cb True t (l, w) = Some (l1, w1)"
      and f: "forEach (visit recurse cb True) ts (l1, w1) = Some (l', w')"
      by (cases s1) auto
    from v False obtain u x w2 where
      r: "recurse (doApplyTransition cb t w) (alpha l) (beta l) = Some ((u, x), w2)"
      and l1: "l1 = overwriteBest True t x l" and w1: "w1 = doUndoTransition cb t w2"
      by (cases rule: visit_cases) simp_all
    from False Cons.prems(2,3) bounds have win: "max a0 ?m \<le> b0" "- 9000000000 \<le> max a0 ?m"
      by simp_all
    with rec r Cons.prems(2,3) bounds(3) have child: "bracket (max a0 ?m) b0 ?v x"
      by (metis doApplyTransition_simps(1))
    from Cons.prems(4) have "undoTransition cb (applyTransition cb (board w) t) t = board w"
      by simp
    from visit_board [OF this recB v] have bw: "board w1 = board w" .
    with Cons.prems(4)
    have inv1: "\<forall>t \<in> set ts. undoTransition cb (applyTransition cb (board w1) t) t = board w1"
      by simp
    from overwriteBest_max_fields [OF Cons.prems(2,3), of t x]
    have fields: "best l1 = max ?m x" "beta l1 = b0" "alpha l1 = max a0 (best l1)"
      by (simp_all add: l1)
    from Cons.IH [OF f fields(2,3) inv1]
    have IH: "bracket a0 b0 (fold max ?vals (max ?m x)) (best l')"
      by (simp add: bw fields(1))
    obtain M where M: "fold max ?vals (max ?m x) = max (max ?m x) M"
      "fold max ?vals (max ?v ?m) = max (max ?v ?m) M"
      using fold_max_split by blast
    from bracket_step_max [OF bounds(1) win(1) child IH [unfolded M(1)]]
    show ?thesis by (simp add: M(2))
  qed
qed


lemma forEach_visit_min_bracket:
  fixes val :: "'b \<Rightarrow> real"
  assumes recB: "\<forall>w a b r w'. recurse w a b = Some (r, w') \<longrightarrow> board w' = board w"
    and rec: "\<forall>w a b u r w'. a \<le> b \<and> - 9000000000 \<le> a \<and> b \<le> 9000000000 \<and>
        recurse w a b = Some ((u, r), w') \<longrightarrow> bracket a b (val (board w)) r"
    and bounds: "a0 \<le> b0" "- 9000000000 \<le> a0" "b0 \<le> 9000000000"
  shows "forEach (visit recurse cb False) ts (l, w) = Some (l', w') \<Longrightarrow>
     alpha l = a0 \<Longrightarrow> beta l = min b0 (best l) \<Longrightarrow>
     \<forall>t \<in> set ts. undoTransition cb (applyTransition cb (board w) t) t = board w \<Longrightarrow>
     bracket a0 b0 (fold min (map (\<lambda>t. val (applyTransition cb (board w) t)) ts) (best l)) (best l')"
proof (induction ts arbitrary: l w)
  case Nil
  then show ?case by (simp add: bracket_refl)
next
  case (Cons t ts)
  let ?vals = "map (\<lambda>t. val (applyTransition cb (board w) t)) ts"
  let ?v = "val (applyTransition cb (board w) t)"
  let ?m = "best l"
  show ?case
  proof (cases "alpha l > beta l")
    case True
    from Cons.prems(1) have "l' = l" unfolding forEach_cut [OF True] by simp
    moreover have "bracket a0 b0 (fold min (?v # ?vals) ?m) ?m"
      using bounds(1) True Cons.prems(2,3) by (intro bracket_cut_min fold_min_le) simp_all
    ultimately show ?thesis by simp
  next
    case False
    from Cons.prems(1) obtain s1 where "visit recurse cb False t (l, w) = Some s1"
      and "forEach (visit recurse cb False) ts s1 = Some (l', w')"
      by (rule forEach_Cons_cases)
    then obtain l1 w1 where v: "visit recurse cb False t (l, w) = Some (l1, w1)"
      and f: "forEach (visit recurse cb False) ts (l1, w1) = Some (l', w')"
      by (cases s1) auto
    from v False obtain u x w2 where
      r: "recurse (doApplyTransition cb t w) (alpha l) (beta l) = Some ((u, x), w2)"
      and l1: "l1 = overwriteBest False t x l" and w1: "w1 = doUndoTransition cb t w2"
      by (cases rule: visit_cases) simp_all
    from False Cons.prems(2,3) bounds have win: "a0 \<le> min b0 ?m" "min b0 ?m \<le> 9000000000"
      by simp_all
    with rec r Cons.prems(2,3) bounds(2) have child: "bracket a0 (min b0 ?m) ?v x"
      by (metis doApplyTransition_simps(1))
    from Cons.prems(4) have "undoTransition cb (applyTransition cb (board w) t) t = board w"
      by simp
    from visit_board [OF this recB v] have bw: "board w1 = board w" .
    with Cons.prems(4)
    have inv1: "\<forall>t \<in> set ts. undoTransition cb (applyTransition cb (board w1) t) t = board w1"
      by simp
    from overwriteBest_min_fields [OF Cons.prems(2,3), of t x]
    have fields: "best l1 = min ?m x" "alpha l1 = a0" "beta l1 = min b0 (best l1)"
      by (simp_all add: l1)
    from Cons.IH [OF f fields(2,3) inv1]
    have IH: "bracket a0 b0 (fold min ?vals (min ?m x)) (best l')"
      by (simp add: bw fields(1))
    obtain M where M: "fold min ?vals (min ?m x) = min (min ?m x) M"
      "fold min ?vals (min ?v ?m) = min (min ?v ?m) M"
      using fold_min_split by blast
    from bracket_step_min [OF bounds(1) win(1) child IH [unfolded M(1)]]
    show ?thesis by (simp add: M(2))
  qed
qed

lemma fullMinimax_bounds:
  assumes "\<forall>b. - 9000000000 \<le> calculateBoard cb b \<and> calculateBoard cb b \<le> 9000000000"
  shows "- 9000000000 \<le> fullMinimax cb b n isMax \<and> fullMinimax cb b n isMax \<le> 9000000000"
proof (induction n arbitrary: b isMax)
  case 0
  with assms show ?case by simp
next
  case (Suc n)
  let ?ts = "calculateTransitions cb b isMax"
  let ?S = "set (map (\<lambda>t. fullMinimax cb (applyTransition cb b t) n (\<not> isMax)) ?ts)"
  have all: "\<forall>x \<in> ?S. - 9000000000 \<le> x \<and> x \<le> 9000000000"
    using Suc.IH by auto
  have "Max ?S \<in> ?S" "Min ?S \<in> ?S" if "?ts \<noteq> []"
    using that by (simp_all only: Max_in Min_in List.finite_set set_empty map_is_Nil_conv not_False_eq_True)
  with all have "?ts \<noteq> [] \<longrightarrow> (- 9000000000 \<le> Max ?S \<and> Max ?S \<le> 9000000000) \<and>
      (- 9000000000 \<le> Min ?S \<and> Min ?S \<le> 9000000000)"
    by blast
  then show ?case by (cases isMax) simp_all
qed

lemma fold_max_Max:
  assumes "vs \<noteq> []" and "\<forall>v \<in> set vs. lo \<le> v"
  shows "fold max vs lo = Max (set vs)"
proof -
  from assms(1) obtain v vs' where vs: "vs = v # vs'" by (cases vs) auto
  with assms(2) have "max v lo = v" by simp
  then show ?thesis unfolding vs Max.set_eq_fold by simp
qed

lemma fold_min_Min:
  assumes "vs \<noteq> []" and "\<forall>v \<in> set vs. v \<le> hi"
  shows "fold min vs hi = Min (set vs)"
proof -
  from assms(1) obtain v vs' where vs: "vs = v # vs'" by (cases vs) auto
  with assms(2) have "min v hi = v" by simp
  then show ?thesis unfolding vs Min.set_eq_fold by simp
qed

lemma run_bracket:
  assumes inv: "\<forall>b m. \<forall>t \<in> set (calculateTransitions cb b m).
      undoTransition cb (applyTransition cb b t) t = b"
    and heur: "\<forall>b. - 9000000000 \<le> calculateBoard cb b \<and> calculateBoard cb b \<le> 9000000000"
  shows "depth \<le> maxDepth \<Longrightarrow> a \<le> b \<Longrightarrow> - 9000000000 \<le> a \<Longrightarrow> b \<le> 9000000000 \<Longrightarrow>
    runMinimaxAlgorithm rnd cb w depth maxDepth isMax a b = Some ((t, r), w') \<Longrightarrow>
    bracket a b (fullMinimax cb (board w) (maxDepth - depth) isMax) r"
proof (induction "maxDepth - depth" arbitrary: depth w isMax a b t r w')
  case 0
  then show ?case by (auto simp: run_leaf bracket_refl)
next
  case (Suc n)
  then have ne: "depth \<noteq> maxDepth" and n: "n = maxDepth - (depth + 1)" "depth + 1 \<le> maxDepth"
    and Sn: "maxDepth - depth = Suc n"
    by auto
  let ?val = "\<lambda>b. fullMinimax cb b n (\<not> isMax)"
  let ?ts = "calculateTransitions cb (board w) isMax"
  let ?vals = "map (\<lambda>t. ?val (applyTransition cb (board w) t)) ?ts"
  have recB: "\<forall>w a b r w'. descend rnd cb depth maxDepth isMax w a b = Some (r, w') \<longrightarrow>
      board w' = board w"
    unfolding descend_def using run_board [OF inv n(2)] by blast
  have rec: "\<forall>w a b u r w'. a \<le> b \<and> - 9000000000 \<le> a \<and> b \<le> 9000000000 \<and>
      descend rnd cb depth maxDepth isMax w a b = Some ((u, r), w') \<longrightarrow> bracket a b (?val (board w)) r"
    unfolding descend_def using Suc.hyps(1) [OF n] n(1) by blast
  from ne Suc.prems(5) show ?case
  proof (cases rule: run_node_cases)
    case (inner l w3)
    from inner(4) [symmetric] have r: "r = best l"
      by (cases rule: pick_cases) simp_all
    have bvals: "\<forall>v \<in> set ?vals. - 9000000000 \<le> v \<and> v \<le> 9000000000"
      using fullMinimax_bounds [OF heur] by auto
    from inner(2) have nonempty: "?vals \<noteq> []" by simp
    have invw: "\<forall>t \<in> set ?ts.
        undoTransition cb (applyTransition cb (board (enter cb isMax w)) t) t = board (enter cb isMax w)"
      using inv by simp
    show ?thesis
    proof (cases isMax)
      case True
      from inner(3) have loop: "forEach (visit (descend rnd cb depth maxDepth isMax) cb True) ?ts
          (initial True a b, enter cb isMax w) = Some (l, w3)"
        using True by simp
      from forEach_visit_max_bracket [where val = ?val, OF recB rec Suc.prems(2,3,4) loop _ _ invw]
        Suc.prems(3)
      have "bracket a b (fold max ?vals (- 9000000000)) (best l)"
        by simp
      moreover have "fold max ?vals (- 9000000000) = Max (set ?vals)"
        using nonempty bvals by (intro fold_max_Max) auto
      ultimately show ?thesis
        using True inner(1,2) by (simp add: Sn r)
    next
      case False
      from inner(3) have loop: "forEach (visit (descend rnd cb depth maxDepth isMax) cb False) ?ts
          (initial False a b, enter cb isMax w) = Some (l, w3)"
        using False by simp
      from forEach_visit_min_bracket [where val = ?val, OF recB rec Suc.prems(2,3,4) loop _ _ invw]
        Suc.prems(4)
      have "bracket a b (fold min ?vals 9000000000) (best l)"
        by simp
      moreover have "fold min ?vals 9000000000 = Min (set ?vals)"
        using nonempty bvals by (intro fold_min_Min) auto
      ultimately show ?thesis
        using False inner(1,2) by (simp add: Sn r)
    qed
  qed (simp_all add: Sn bracket_refl)
qed


section \<open>Depth zero\<close>

text \<open>
  C4: with \<open>maxDepth = 0\<close> the search returns no transition, the value of the engine is
  \<open>calculateBoard\<close> of the board, and the board is unchanged: the only callback that
  runs is \<open>calculateBoard\<close>, so no transition is applied.
\<close>

theorem Minimax_depth_zero:
  "runMinimaxAlgorithm rnd cb w 0 0 True (- 9000000000) 9000000000 =
     Some ((None, calculateBoard cb (board w)), emit (CalculateBoard (board w)) w) \<and>
   (\<exists>w'. Minimax rnd cb w 0 = Some (None, w') \<and> board w' = board w \<and> draws w' = draws w \<and>
      trace w' = trace w @ [CalculateBoard (board w), Print (calculateBoard cb (board w))])"
  by (simp add: Minimax_def run_leaf)

theorem Minimax_depth_zero_witness:
  "Minimax (\<lambda>k. k) lineGame start 0 =
     Some (None, \<lparr>board = [], draws = 0, trace = [CalculateBoard [], Print 0]\<rparr>)"
  using Minimax_depth_zero [of "\<lambda>k. k" lineGame start]
  by (auto simp: start_def)

section \<open>Board restoration\<close>

text \<open>
  C2: if \<open>undoTransition\<close> inverts \<open>applyTransition\<close> on every transition that
  \<open>calculateTransitions\<close> returns for a board (the only ones the search applies), the
  board after \<open>Minimax\<close> returns is the board before the call, and so it is after
  every level of
  the recursion; the run returns, and it undoes exactly as many transitions as it
  applies (the closure undoes each transition it applied, before the next sibling and
  whatever the bounds have become).
\<close>

theorem board_restored:
  assumes "\<forall>b m. \<forall>t \<in> set (calculateTransitions cb b m).
      undoTransition cb (applyTransition cb b t) t = b"
  shows "(depth \<le> maxDepth \<longrightarrow>
           (\<exists>r w'. runMinimaxAlgorithm rnd cb w depth maxDepth isMax a b = Some (r, w') \<and>
              board w' = board w \<and>
              (\<exists>rest. trace w' = trace w @ rest \<and> applied rest = undone rest))) \<and>
         (\<exists>t w'. Minimax rnd cb w maxDepth = Some (t, w') \<and> board w' = board w \<and>
              (\<exists>rest. trace w' = trace w @ rest \<and> applied rest = undone rest))"
proof (intro conjI impI)
  assume le: "depth \<le> maxDepth"
  then obtain r w' where run: "runMinimaxAlgorithm rnd cb w depth maxDepth isMax a b = Some (r, w')"
    using run_total [of depth maxDepth rnd cb w isMax a b] by (metis surj_pair)
  from run_board [OF assms le run] run_trace [OF le run] run
  show "\<exists>r w'. runMinimaxAlgorithm rnd cb w depth maxDepth isMax a b = Some (r, w') \<and>
          board w' = board w \<and> (\<exists>rest. trace w' = trace w @ rest \<and> applied rest = undone rest)"
    by (auto simp: grows_def)
next
  obtain t v w' where run: "runMinimaxAlgorithm rnd cb w 0 maxDepth True (- 9000000000) 9000000000 = Some ((t, v), w')"
    using run_total [of 0 maxDepth rnd cb w True] by (metis le0 surj_pair)
  from run_board [OF assms _ run] run_trace [OF _ run]
  have "board w' = board w" and "grows w w'" by simp_all
  then have "board (emit (Print v) w') = board w" and "grows w (emit (Print v) w')"
    by (auto simp: grows_def)
  then show "\<exists>t w'. Minimax rnd cb w maxDepth = Some (t, w') \<and> board w' = board w \<and>
              (\<exists>rest. trace w' = trace w @ rest \<and> applied rest = undone rest)"
    unfolding Minimax_def run by (auto simp: grows_def)
qed

theorem board_restored_witness:
  "\<exists>t w'. Minimax (\<lambda>k. k) pruneGame start 2 = Some (t, w') \<and> board w' = board start \<and>
      ApplyTransition [1] 0 \<in> set (trace w') \<and> ApplyTransition [1] 1 \<notin> set (trace w') \<and>
      applied (trace w') = 5 \<and> undone (trace w') = 5"
proof -
  from board_restored [OF pruneGame_undo, of 0 2 "\<lambda>k. k" start True 0 0]
  obtain t w' where m: "Minimax (\<lambda>k. k) pruneGame start 2 = Some (t, w')"
    and b: "board w' = board start"
    by (elim exE conjE) (rule that, assumption+)
  from m have "ApplyTransition [1] 0 \<in> set (trace w') \<and> ApplyTransition [1] 1 \<notin> set (trace w') \<and>
      applied (trace w') = 5 \<and> undone (trace w') = 5"
    unfolding Minimax_def pruneGame_run by auto
  with m b show ?thesis by blast
qed

section \<open>Terminal nodes\<close>

text \<open>
  C3, the counterexample: the claim ends with "so LOSS_SCORE < any heuristic value <
  WIN_SCORE". The source puts no bound on what \<open>calculateBoard\<close> returns: in the game
  below it returns \<open>1e10\<close>, the engine hands that value on as the value of the
  depth-limit node, and it is not below \<open>9e9 - 1\<close>.
\<close>

theorem heuristic_above_win_score:
  "calculateBoard (leafGame 0 [10000000000]) (Some 0) = 10000000000 \<and>
   runMinimaxAlgorithm (\<lambda>k. k) (leafGame 0 [10000000000]) (root\<lparr>board := Some 0\<rparr>) 1 1 False
       (- 9000000000) 9000000000 =
     Some ((None, 10000000000), \<lparr>board = Some 0, draws = 0, trace = [CalculateBoard (Some 0)]\<rparr>) \<and>
   \<not> calculateBoard (leafGame 0 [10000000000]) (Some 0) < 9000000000 - 1"
  by (simp add: run_leaf root_def emit_def)

text \<open>
  C3, as amended: at every node with \<open>depth < maxDepth\<close> (the root included), a negative
  \<open>calculateEndState\<close> makes the engine return no transition and \<open>-9e9 + 1\<close>, a positive
  one no transition and \<open>9e9 - 1\<close>, whatever \<open>calculateTransitions\<close> returned and
  with the board untouched; at the root \<open>Minimax\<close> then returns no transition and prints
  that value. Both values lie one unit inside \<open>-9e9\<close> and \<open>9e9\<close>. Nothing is promised
  about where heuristic values lie.
\<close>

theorem end_state_terminal:
  assumes "depth < maxDepth"
  shows "(calculateEndState cb (board w) < 0 \<longrightarrow>
            runMinimaxAlgorithm rnd cb w depth maxDepth isMax a b =
              Some ((None, - 9000000000 + 1), enter cb isMax w)) \<and>
         (calculateEndState cb (board w) > 0 \<longrightarrow>
            runMinimaxAlgorithm rnd cb w depth maxDepth isMax a b =
              Some ((None, 9000000000 - 1), enter cb isMax w)) \<and>
         (depth = 0 \<and> calculateEndState cb (board w) < 0 \<longrightarrow>
            Minimax rnd cb w maxDepth = Some (None, emit (Print (- 9000000000 + 1)) (enter cb True w))) \<and>
         (depth = 0 \<and> calculateEndState cb (board w) > 0 \<longrightarrow>
            Minimax rnd cb w maxDepth = Some (None, emit (Print (9000000000 - 1)) (enter cb True w))) \<and>
         board (enter cb isMax w) = board w \<and>
         (- 9000000000 :: real) < - 9000000000 + 1 \<and>
         (- 9000000000 + 1 :: real) < 9000000000 - 1 \<and>
         (9000000000 - 1 :: real) < 9000000000"
  using assms by (auto simp: run_node Minimax_def)

theorem end_state_terminal_witness:
  "runMinimaxAlgorithm (\<lambda>k. k) (leafGame 1 [5]) root 0 1 True (- 9000000000) 9000000000 =
     Some ((None, 8999999999), \<lparr>board = None, draws = 0,
        trace = [CalculateTransitions None True, CalculateEndState None]\<rparr>) \<and>
   runMinimaxAlgorithm (\<lambda>k. k) (leafGame (- 1) [5]) root 0 1 True (- 9000000000) 9000000000 =
     Some ((None, - 8999999999), \<lparr>board = None, draws = 0,
        trace = [CalculateTransitions None True, CalculateEndState None]\<rparr>)"
  using end_state_terminal [of 0 1 "leafGame 1 [5]" root "\<lambda>k. k" True "- 9000000000" 9000000000]
    end_state_terminal [of 0 1 "leafGame (- 1) [5]" root "\<lambda>k. k" True "- 9000000000" 9000000000]
  by (simp add: root_def enter_def emit_def)

text \<open>
  C6: at every node with \<open>depth < maxDepth\<close> where \<open>calculateEndState\<close> is 0 and
  \<open>calculateTransitions\<close> returns the empty list, the engine returns no transition and
  the value 0, and leaves the board as it was.
\<close>

theorem no_moves_terminal:
  assumes "depth < maxDepth" and "calculateEndState cb (board w) = 0"
    and "calculateTransitions cb (board w) isMax = []"
  shows "runMinimaxAlgorithm rnd cb w depth maxDepth isMax a b = Some ((None, 0), enter cb isMax w) \<and>
         board (enter cb isMax w) = board w"
  using assms by (simp add: run_node)

theorem no_moves_terminal_witness:
  "runMinimaxAlgorithm (\<lambda>k. k) (leafGame 0 []) root 0 1 True (- 9000000000) 9000000000 =
     Some ((None, 0), \<lparr>board = None, draws = 0,
        trace = [CalculateTransitions None True, CalculateEndState None]\<rparr>)"
  using no_moves_terminal [of 0 1 "leafGame 0 []" root True "\<lambda>k. k" "- 9000000000" 9000000000]
  by (simp add: root_def enter_def emit_def)

section \<open>The order of the callbacks at a node\<close>

text \<open>
  C7, the counterexample: at a root whose \<open>calculateEndState\<close> is 1, the trace of the
  run starts with the call of \<open>calculateTransitions\<close>, and the call of
  \<open>calculateEndState\<close> comes after it (line 70 runs before line 73).
\<close>

theorem transitions_generated_at_won_root:
  "calculateEndState (leafGame 1 [5]) (board root) \<noteq> 0 \<and>
   Minimax (\<lambda>k. k) (leafGame 1 [5]) root 1 =
     Some (None, \<lparr>board = None, draws = 0,
       trace = [CalculateTransitions None True, CalculateEndState None, Print 8999999999]\<rparr>)"
  by (simp add: model_defs root_def)

text \<open>
  C7, as amended: at every node with \<open>depth < maxDepth\<close> (the root included) the engine
  calls \<open>calculateTransitions\<close> first and \<open>calculateEndState\<close> right after it, both on
  the node's board; when \<open>calculateEndState\<close> is not 0 nothing else happens at the node
  (the generated list is not used) and no transition is returned.
\<close>

theorem transitions_before_end_state:
  assumes "depth < maxDepth"
  shows "\<exists>r w' rest. runMinimaxAlgorithm rnd cb w depth maxDepth isMax a b = Some (r, w') \<and>
           trace w' = trace w @ CalculateTransitions (board w) isMax # CalculateEndState (board w) # rest \<and>
           (calculateEndState cb (board w) \<noteq> 0 \<longrightarrow> rest = [] \<and> fst r = None)"
proof -
  from assms have le: "depth \<le> maxDepth" and ne: "depth \<noteq> maxDepth" by simp_all
  obtain r w' where run: "runMinimaxAlgorithm rnd cb w depth maxDepth isMax a b = Some (r, w')"
    using run_total [OF le, of rnd cb w isMax a b] by (metis surj_pair)
  from ne run have "\<exists>rest. trace w' = trace w @ CalculateTransitions (board w) isMax # CalculateEndState (board w) # rest \<and>
           (calculateEndState cb (board w) \<noteq> 0 \<longrightarrow> rest = [] \<and> fst r = None)"
  proof (cases rule: run_node_cases)
    case (inner l w3)
    have "\<forall>w a b r w'. descend rnd cb depth maxDepth isMax w a b = Some (r, w') \<longrightarrow> grows w w'"
      unfolding descend_def using run_trace assms by (metis Suc_eq_plus1 Suc_leI)
    from forEach_visit_trace [OF this inner(3)] pick_trace [OF inner(4) [symmetric]]
    have "grows (enter cb isMax w) w'" by (rule grows_trans)
    with inner(1) show ?thesis by (auto simp: grows_def)
  qed auto
  with run show ?thesis by blast
qed

theorem transitions_before_end_state_witness:
  "\<exists>r w' rest. runMinimaxAlgorithm (\<lambda>k. k) (leafGame 1 [5]) root 0 1 True 0 0 = Some (r, w') \<and>
      trace w' = CalculateTransitions None True # CalculateEndState None # rest \<and> rest = []"
  using transitions_before_end_state [of 0 1 "\<lambda>k. k" "leafGame 1 [5]" root True 0 0]
  by (auto simp: root_def)

section \<open>When a transition is returned\<close>

text \<open>
  C8: \<open>Minimax\<close> returns no transition when \<open>maxDepth\<close> is 0, when
  \<open>calculateEndState\<close> of the root is not 0, or when \<open>calculateTransitions\<close> of the
  root is empty; so a returned transition means that the root has a move, is not at
  the depth limit and is not won or lost.
\<close>

theorem transition_only_with_moves:
  "(maxDepth = 0 \<or> calculateEndState cb (board w) \<noteq> 0 \<or> calculateTransitions cb (board w) True = [] \<longrightarrow>
      (\<exists>w'. Minimax rnd cb w maxDepth = Some (None, w'))) \<and>
   (Minimax rnd cb w maxDepth = Some (Some t, w'') \<longrightarrow>
      calculateTransitions cb (board w) True \<noteq> [] \<and> maxDepth \<noteq> 0 \<and> calculateEndState cb (board w) = 0)"
proof -
  have 1: "\<exists>w'. Minimax rnd cb w maxDepth = Some (None, w')"
    if "maxDepth = 0 \<or> calculateEndState cb (board w) \<noteq> 0 \<or> calculateTransitions cb (board w) True = []"
  proof (cases "maxDepth = 0")
    case True
    then show ?thesis by (simp add: Minimax_def run_leaf)
  next
    case False
    then have "0 \<noteq> maxDepth" by simp
    with that False show ?thesis by (auto simp: Minimax_def run_node)
  qed
  then show ?thesis by fastforce
qed

theorem transition_only_with_moves_witness:
  "\<exists>w'. Minimax (\<lambda>k. k) (leafGame 0 []) root 1 = Some (None, w')"
  using transition_only_with_moves [of 1 "leafGame 0 []" root "\<lambda>k. k"]
  by (simp add: root_def)

section \<open>The random draws\<close>

text \<open>
  C10: two runs on the same input with different outcomes \<open>rnd\<close> and \<open>rnd'\<close> of the
  random draws both return, with the same value, and one returns a transition exactly
  when the other does; this holds at every level of the recursion and for \<open>Minimax\<close>,
  which prints the same value in both runs. Both runs leave the same board.
\<close>

theorem tie_break_changes_transition_only:
  "(depth \<le> maxDepth \<longrightarrow>
     (\<exists>t t' x w1 w2.
        runMinimaxAlgorithm rnd cb w depth maxDepth isMax a b = Some ((t, x), w1) \<and>
        runMinimaxAlgorithm rnd' cb w depth maxDepth isMax a b = Some ((t', x), w2) \<and>
        (t = None \<longleftrightarrow> t' = None) \<and> board w1 = board w2)) \<and>
   (\<exists>t t' x w1 w2.
        Minimax rnd cb w maxDepth = Some (t, w1) \<and> Minimax rnd' cb w maxDepth = Some (t', w2) \<and>
        (t = None \<longleftrightarrow> t' = None) \<and> board w1 = board w2 \<and>
        last (trace w1) = Print x \<and> last (trace w2) = Print x)"
proof -
  have engine: "\<exists>t t' x w1 w2.
        runMinimaxAlgorithm rnd cb w depth maxDepth isMax a b = Some ((t, x), w1) \<and>
        runMinimaxAlgorithm rnd' cb w depth maxDepth isMax a b = Some ((t', x), w2) \<and>
        (t = None \<longleftrightarrow> t' = None) \<and> board w1 = board w2"
    if le: "depth \<le> maxDepth" for depth isMax a b
  proof -
    obtain t x w1 where 1: "runMinimaxAlgorithm rnd cb w depth maxDepth isMax a b = Some ((t, x), w1)"
      using run_total [OF le, of rnd cb w isMax a b] by (metis surj_pair)
    obtain t' x' w2 where 2: "runMinimaxAlgorithm rnd' cb w depth maxDepth isMax a b = Some ((t', x'), w2)"
      using run_total [OF le, of rnd' cb w isMax a b] by (metis surj_pair)
    from run_agree [OF le 1 2] 1 2 show ?thesis by auto
  qed
  from engine [of 0 True "- 9000000000" 9000000000]
  have "\<exists>t t' x w1 w2.
        Minimax rnd cb w maxDepth = Some (t, w1) \<and> Minimax rnd' cb w maxDepth = Some (t', w2) \<and>
        (t = None \<longleftrightarrow> t' = None) \<and> board w1 = board w2 \<and>
        last (trace w1) = Print x \<and> last (trace w2) = Print x"
    unfolding Minimax_def by fastforce
  with engine show ?thesis by blast
qed

theorem tie_break_changes_transition_only_witness:
  "\<exists>x w1 w2.
        Minimax (\<lambda>k. k) (leafGame 0 [5, 9, 9]) root 1 = Some (Some 1, w1) \<and>
        Minimax (\<lambda>k. k + 1) (leafGame 0 [5, 9, 9]) root 1 = Some (Some 2, w2) \<and>
        board w1 = board w2 \<and> last (trace w1) = Print x \<and> last (trace w2) = Print x"
proof -
  have 1: "map_option fst (Minimax (\<lambda>k. k) (leafGame 0 [5, 9, 9]) root 1) = Some (Some 1)"
    by (simp add: model_defs root_def upt_rec)
  have 2: "map_option fst (Minimax (\<lambda>k. k + 1) (leafGame 0 [5, 9, 9]) root 1) = Some (Some 2)"
    by (simp add: model_defs root_def upt_rec)
  from tie_break_changes_transition_only [of 0 1 "\<lambda>k. k" "leafGame 0 [5, 9, 9]" root True 0 0 "\<lambda>k. k + 1"]
  obtain t t' x w1 w2 where
    "Minimax (\<lambda>k. k) (leafGame 0 [5, 9, 9]) root 1 = Some (t, w1)"
    "Minimax (\<lambda>k. k + 1) (leafGame 0 [5, 9, 9]) root 1 = Some (t', w2)"
    "board w1 = board w2" "last (trace w1) = Print x" "last (trace w2) = Print x"
    by blast
  with 1 2 show ?thesis by auto
qed

section \<open>The best set\<close>

text \<open>
  C5, the counterexample: an interior maximizer node entered with alpha 4 and beta 10
  (the bounds a node has below a sibling worth 4), with one child, worth 3. The child's
  value is strictly better than the initial best \<open>-9e9\<close>, so it becomes the best and
  the set becomes \<open>[0]\<close>; but alpha is \<open>math.max(4, 3) = 4\<close>, not the new best 3.
\<close>

theorem alpha_stays_above_new_best:
  "forEach (visit (descend (\<lambda>k. k) (leafGame 0 [3]) 0 1 True) (leafGame 0 [3]) True)
       (calculateTransitions (leafGame 0 [3]) (board root) True)
       (initial True 4 10, enter (leafGame 0 [3]) True root) =
     Some (\<lparr>alpha = 4, beta = 10, best = 3, bestTransitions = [0]\<rparr>,
       \<lparr>board = None, draws = 0,
        trace = [CalculateTransitions None True, CalculateEndState None, ApplyTransition None 0,
          CalculateBoard (Some 0), UndoTransition (Some 0) 0]\<rparr>) \<and>
   runMinimaxAlgorithm (\<lambda>k. k) (leafGame 0 [3]) root 0 1 True 4 10 =
     Some ((Some 0, 3),
       \<lparr>board = None, draws = 1,
        trace = [CalculateTransitions None True, CalculateEndState None, ApplyTransition None 0,
          CalculateBoard (Some 0), UndoTransition (Some 0) 0, MathRandom 0 0]\<rparr>)"
  by (simp add: model_defs descend_def initial_def enter_def root_def)

text \<open>
  C5, as amended: at every interior node (\<open>depth < maxDepth\<close>, end state 0, a
  non-empty list of transitions) the closure runs over the generated transitions in
  order and the node returns from the locals the loop ends with. For every child the
  loop reaches with the bounds not crossed, the recursive call returns a value \<open>v\<close>,
  and the loop continues from these locals: if \<open>v\<close> equals the best, the transition is
  appended to the set and nothing else changes; if \<open>v\<close> is strictly better for the
  role, \<open>v\<close> replaces the best, the set becomes that single transition, and alpha
  becomes \<open>max alpha v\<close> (maximizer) or beta becomes \<open>min beta v\<close> (minimizer);
  otherwise nothing changes. The node's value is the final best. With an empty set it
  returns no transition; with a non-empty set it returns the member at the index that
  \<open>math.random(0, size - 1)\<close> draws, and every index below the size is returned when
  it is the one drawn, so the pick is uniform whenever the draw is. Every member of
  the set is an enumerated transition that the loop visited and whose recursive call
  returned the final best.
\<close>

theorem best_set_maintenance:
  assumes "depth < maxDepth" and "calculateEndState cb (board w) = 0"
    and "calculateTransitions cb (board w) isMax \<noteq> []"
  shows "\<exists>l3 w3.
     forEach (visit (descend rnd cb depth maxDepth isMax) cb isMax)
       (calculateTransitions cb (board w) isMax) (initial isMax a b, enter cb isMax w) = Some (l3, w3) \<and>
     (bestTransitions l3 = [] \<longrightarrow>
        runMinimaxAlgorithm rnd cb w depth maxDepth isMax a b = Some ((None, best l3), w3)) \<and>
     (bestTransitions l3 \<noteq> [] \<longrightarrow>
        runMinimaxAlgorithm rnd cb w depth maxDepth isMax a b =
          Some ((Some (bestTransitions l3 ! (rnd (draws w3) mod length (bestTransitions l3))), best l3),
                (emit (MathRandom 0 (length (bestTransitions l3) - 1)) w3)\<lparr>draws := draws w3 + 1\<rparr>)) \<and>
     (\<forall>i. i < length (bestTransitions l3) \<longrightarrow>
        (\<exists>w''. runMinimaxAlgorithm (\<lambda>k. i) cb w depth maxDepth isMax a b =
           Some ((Some (bestTransitions l3 ! i), best l3), w''))) \<and>
     (\<forall>s \<in> set (bestTransitions l3). \<exists>pre post l0 w4 u w5.
        calculateTransitions cb (board w) isMax = pre @ s # post \<and>
        forEach (visit (descend rnd cb depth maxDepth isMax) cb isMax) pre
          (initial isMax a b, enter cb isMax w) = Some (l0, w4) \<and>
        \<not> alpha l0 > beta l0 \<and>
        runMinimaxAlgorithm rnd cb (doApplyTransition cb s w4) (depth + 1) maxDepth (\<not> isMax)
          (alpha l0) (beta l0) = Some ((u, best l3), w5)) \<and>
     (\<forall>pre t post l w1.
        calculateTransitions cb (board w) isMax = pre @ t # post \<and>
        forEach (visit (descend rnd cb depth maxDepth isMax) cb isMax) pre
          (initial isMax a b, enter cb isMax w) = Some (l, w1) \<and>
        \<not> alpha l > beta l \<longrightarrow>
        (\<exists>u v w2.
           runMinimaxAlgorithm rnd cb (doApplyTransition cb t w1) (depth + 1) maxDepth (\<not> isMax)
             (alpha l) (beta l) = Some ((u, v), w2) \<and>
           forEach (visit (descend rnd cb depth maxDepth isMax) cb isMax) (pre @ [t])
             (initial isMax a b, enter cb isMax w) =
             Some (if v = best l then l\<lparr>bestTransitions := bestTransitions l @ [t]\<rparr>
                   else if isMax \<and> best l < v then
                     l\<lparr>best := v, bestTransitions := [t], alpha := max (alpha l) v\<rparr>
                   else if \<not> isMax \<and> v < best l then
                     l\<lparr>best := v, bestTransitions := [t], beta := min (beta l) v\<rparr>
                   else l,
                   doUndoTransition cb t w2)))"
proof -
  let ?ts = "calculateTransitions cb (board w) isMax"
  let ?loop = "\<lambda>r. forEach (visit (descend r cb depth maxDepth isMax) cb isMax)"
  let ?s0 = "(initial isMax a b, enter cb isMax w)"
  from assms(1) have ne: "depth \<noteq> maxDepth" and le: "depth + 1 \<le> maxDepth" by simp_all
  have total: "\<exists>r. descend r' cb depth maxDepth isMax w' a' b' = Some r" for r' w' a' b'
    unfolding descend_def using run_total [OF le] by blast
  obtain s3 where "?loop rnd ?ts ?s0 = Some s3"
    using forEach_visit_total [of "descend rnd cb depth maxDepth isMax", OF total] by blast
  then obtain l3 w3 where loop: "?loop rnd ?ts ?s0 = Some (l3, w3)" by (cases s3) auto
  have node: "runMinimaxAlgorithm r cb w depth maxDepth isMax a b =
      map_option (pick r) (?loop r ?ts ?s0)" for r
    using assms(2,3) by (simp add: run_node [OF ne])
  have run: "runMinimaxAlgorithm rnd cb w depth maxDepth isMax a b = Some (pick rnd (l3, w3))"
    by (simp add: node loop)
  have empty: "bestTransitions l3 = [] \<longrightarrow>
      runMinimaxAlgorithm rnd cb w depth maxDepth isMax a b = Some ((None, best l3), w3)"
    by (simp add: run pick_def)
  have nonempty: "bestTransitions l3 \<noteq> [] \<longrightarrow>
      runMinimaxAlgorithm rnd cb w depth maxDepth isMax a b =
        Some ((Some (bestTransitions l3 ! (rnd (draws w3) mod length (bestTransitions l3))), best l3),
              (emit (MathRandom 0 (length (bestTransitions l3) - 1)) w3)\<lparr>draws := draws w3 + 1\<rparr>)"
    by (simp add: run pick_def mathRandom_def)
  have index: "\<exists>w''. runMinimaxAlgorithm (\<lambda>k. i) cb w depth maxDepth isMax a b =
      Some ((Some (bestTransitions l3 ! i), best l3), w'')"
    if i: "i < length (bestTransitions l3)" for i
  proof -
    obtain s' where "?loop (\<lambda>k. i) ?ts ?s0 = Some s'"
      using forEach_visit_total [of "descend (\<lambda>k. i) cb depth maxDepth isMax", OF total] by blast
    then obtain l' w' where loop': "?loop (\<lambda>k. i) ?ts ?s0 = Some (l', w')" by (cases s') auto
    have agree: "\<forall>w v a b r r' w' v'. descend rnd cb depth maxDepth isMax w a b = Some (r, w') \<and>
        descend (\<lambda>k. i) cb depth maxDepth isMax v a b = Some (r', v') \<and>
        board w = board v \<longrightarrow> snd r = snd r' \<and> board w' = board v'"
      unfolding descend_def using run_agree [OF le] by (metis prod.collapse)
    from forEach_visit_agree [OF agree loop loop'] have "l3 = l'" by simp
    with loop' have "runMinimaxAlgorithm (\<lambda>k. i) cb w depth maxDepth isMax a b =
        Some (pick (\<lambda>k. i) (l3, w'))"
      by (simp add: node)
    with pick_index [OF i, of w'] show ?thesis by auto
  qed
  have prov: "\<exists>pre post l0 w4 u w5. ?ts = pre @ s # post \<and> ?loop rnd pre ?s0 = Some (l0, w4) \<and>
      \<not> alpha l0 > beta l0 \<and>
      runMinimaxAlgorithm rnd cb (doApplyTransition cb s w4) (depth + 1) maxDepth (\<not> isMax)
        (alpha l0) (beta l0) = Some ((u, best l3), w5)"
    if "s \<in> set (bestTransitions l3)" for s
    using forEach_visit_provenance [OF loop that]
    unfolding visitedWith_def descend_def by simp
  have step: "\<exists>u v w2.
      runMinimaxAlgorithm rnd cb (doApplyTransition cb t w1) (depth + 1) maxDepth (\<not> isMax)
        (alpha l) (beta l) = Some ((u, v), w2) \<and>
      ?loop rnd (pre @ [t]) ?s0 =
        Some (if v = best l then l\<lparr>bestTransitions := bestTransitions l @ [t]\<rparr>
              else if isMax \<and> best l < v then
                l\<lparr>best := v, bestTransitions := [t], alpha := max (alpha l) v\<rparr>
              else if \<not> isMax \<and> v < best l then
                l\<lparr>best := v, bestTransitions := [t], beta := min (beta l) v\<rparr>
              else l,
              doUndoTransition cb t w2)"
    if pre: "?loop rnd pre ?s0 = Some (l, w1)" and nocut: "\<not> alpha l > beta l" for pre t l w1
  proof -
    obtain r where "descend rnd cb depth maxDepth isMax (doApplyTransition cb t w1) (alpha l) (beta l) = Some r"
      using total by blast
    then obtain u v w2 where
      child: "descend rnd cb depth maxDepth isMax (doApplyTransition cb t w1) (alpha l) (beta l) = Some ((u, v), w2)"
      by (metis surj_pair)
    with nocut have "visit (descend rnd cb depth maxDepth isMax) cb isMax t (l, w1) =
        Some (overwriteBest isMax t v l, doUndoTransition cb t w2)"
      by (simp add: visit_go)
    with pre have "?loop rnd (pre @ [t]) ?s0 = Some (overwriteBest isMax t v l, doUndoTransition cb t w2)"
      by (simp add: forEach_append)
    then have "runMinimaxAlgorithm rnd cb (doApplyTransition cb t w1) (depth + 1) maxDepth (\<not> isMax)
        (alpha l) (beta l) = Some ((u, v), w2) \<and>
      ?loop rnd (pre @ [t]) ?s0 =
        Some (if v = best l then l\<lparr>bestTransitions := bestTransitions l @ [t]\<rparr>
              else if isMax \<and> best l < v then
                l\<lparr>best := v, bestTransitions := [t], alpha := max (alpha l) v\<rparr>
              else if \<not> isMax \<and> v < best l then
                l\<lparr>best := v, bestTransitions := [t], beta := min (beta l) v\<rparr>
              else l,
              doUndoTransition cb t w2)"
      using child unfolding descend_def overwriteBest_eq [symmetric] by simp
    then show ?thesis by (intro exI)
  qed
  from loop empty nonempty index prov step show ?thesis
    by (intro exI [of _ l3] exI [of _ w3] conjI) blast+
qed


theorem best_set_maintenance_witness:
  "(\<exists>w'. runMinimaxAlgorithm (\<lambda>k. k) (leafGame 0 [5, 9, 9]) root 0 1 True (- 9000000000) 9000000000 =
       Some ((Some 1, 9), w')) \<and>
   (\<exists>w'. runMinimaxAlgorithm (\<lambda>k. 1) (leafGame 0 [5, 9, 9]) root 0 1 True (- 9000000000) 9000000000 =
       Some ((Some 2, 9), w')) \<and>
   (\<exists>w2. forEach (visit (descend (\<lambda>k. k) (leafGame 0 [5, 9, 9]) 0 1 True) (leafGame 0 [5, 9, 9]) True)
       ([0] @ [1]) (initial True (- 9000000000) 9000000000, enter (leafGame 0 [5, 9, 9]) True root) =
       Some (\<lparr>alpha = 9, beta = 9000000000, best = 9, bestTransitions = [1]\<rparr>, w2))"
proof -
  let ?G = "leafGame 0 [5, 9, 9]"
  let ?loop = "forEach (visit (descend (\<lambda>k. k) ?G 0 1 True) ?G True)"
  let ?s0 = "(initial True (- 9000000000) 9000000000 :: nat locals, enter ?G True root)"
  let ?L = "\<lparr>alpha = 9, beta = 9000000000, best = 9, bestTransitions = [1, 2 :: nat]\<rparr>"
  let ?K = "\<lparr>alpha = 5, beta = 9000000000, best = 5, bestTransitions = [0 :: nat]\<rparr>"
  have ts: "calculateTransitions ?G (board root) True = [0, 1, 2]"
    by (simp add: root_def upt_rec)
  have "\<exists>W. ?loop [0, 1, 2] ?s0 = Some (?L, W)"
    by (simp add: model_defs descend_def initial_def enter_def root_def)
  then obtain W where E: "?loop [0, 1, 2] ?s0 = Some (?L, W)" ..
  have "\<exists>W0. ?loop [0] ?s0 = Some (?K, W0)"
    by (simp add: model_defs descend_def initial_def enter_def root_def)
  then obtain W0 where E0: "?loop [0] ?s0 = Some (?K, W0)" ..
  have h: "(0::nat) < 1" "calculateEndState ?G (board root) = 0"
    "calculateTransitions ?G (board root) True \<noteq> []"
    by (simp_all add: root_def)
  from best_set_maintenance [OF h, of "\<lambda>k. k" "- 9000000000" 9000000000]
  obtain l3 w3 where
    A: "?loop (calculateTransitions ?G (board root) True) ?s0 = Some (l3, w3)"
    and B: "bestTransitions l3 \<noteq> [] \<longrightarrow>
        runMinimaxAlgorithm (\<lambda>k. k) ?G root 0 1 True (- 9000000000) 9000000000 =
          Some ((Some (bestTransitions l3 ! (draws w3 mod length (bestTransitions l3))), best l3),
                (emit (MathRandom 0 (length (bestTransitions l3) - 1)) w3)\<lparr>draws := draws w3 + 1\<rparr>)"
    and C: "\<forall>i. i < length (bestTransitions l3) \<longrightarrow>
        (\<exists>w''. runMinimaxAlgorithm (\<lambda>k. i) ?G root 0 1 True (- 9000000000) 9000000000 =
           Some ((Some (bestTransitions l3 ! i), best l3), w''))"
    and D: "\<forall>pre t post l w1.
        calculateTransitions ?G (board root) True = pre @ t # post \<and>
        ?loop pre ?s0 = Some (l, w1) \<and> \<not> alpha l > beta l \<longrightarrow>
        (\<exists>u v w2.
           runMinimaxAlgorithm (\<lambda>k. k) ?G (doApplyTransition ?G t w1) (0 + 1) 1 (\<not> True)
             (alpha l) (beta l) = Some ((u, v), w2) \<and>
           ?loop (pre @ [t]) ?s0 =
             Some (if v = best l then l\<lparr>bestTransitions := bestTransitions l @ [t]\<rparr>
                   else if True \<and> best l < v then
                     l\<lparr>best := v, bestTransitions := [t], alpha := max (alpha l) v\<rparr>
                   else if \<not> True \<and> v < best l then
                     l\<lparr>best := v, bestTransitions := [t], beta := min (beta l) v\<rparr>
                   else l,
                   doUndoTransition ?G t w2))"
    by (elim exE conjE) (rule that, assumption+)
  from A [unfolded ts E] have l3: "l3 = ?L" and w3: "w3 = W" by simp_all
  have Wd: "draws W = 0"
    using E by (auto simp: model_defs descend_def initial_def enter_def root_def)
  from B have first: "\<exists>w'. runMinimaxAlgorithm (\<lambda>k. k) ?G root 0 1 True (- 9000000000) 9000000000 =
       Some ((Some 1, 9), w')"
    by (simp add: l3 w3 Wd)
  from C [rule_format, of 1] have second:
    "\<exists>w'. runMinimaxAlgorithm (\<lambda>k. 1) ?G root 0 1 True (- 9000000000) 9000000000 =
       Some ((Some 2, 9), w')"
    by (simp add: l3)
  have t1: "calculateTransitions ?G (board root) True = [0] @ 1 # [2]"
    unfolding ts by simp
  have t3: "\<not> alpha ?K > beta ?K" by simp
  note pre = conjI [OF t1 conjI [OF E0 t3]]
  from D [rule_format, OF pre] obtain u v w2 where
    child: "runMinimaxAlgorithm (\<lambda>k. k) ?G (doApplyTransition ?G 1 W0) (0 + 1) 1 (\<not> True)
             (alpha ?K) (beta ?K) = Some ((u, v), w2)"
    and F: "?loop ([0] @ [1]) ?s0 =
             Some (if v = best ?K then ?K\<lparr>bestTransitions := bestTransitions ?K @ [1]\<rparr>
                   else if True \<and> best ?K < v then
                     ?K\<lparr>best := v, bestTransitions := [1], alpha := max (alpha ?K) v\<rparr>
                   else if \<not> True \<and> v < best ?K then
                     ?K\<lparr>best := v, bestTransitions := [1], beta := min (beta ?K) v\<rparr>
                   else ?K,
                   doUndoTransition ?G 1 w2)"
    by (elim exE conjE) (rule that, assumption+)
  from child have v: "v = 9" by (simp add: run_leaf)
  have "?loop ([0] @ [1]) ?s0 =
      Some (\<lparr>alpha = 9, beta = 9000000000, best = 9, bestTransitions = [1]\<rparr>, doUndoTransition ?G 1 w2)"
    unfolding F v by simp
  then have third: "\<exists>w2. ?loop ([0] @ [1]) ?s0 =
      Some (\<lparr>alpha = 9, beta = 9000000000, best = 9, bestTransitions = [1]\<rparr>, w2)"
    by (rule exI)
  from first second third show ?thesis by (intro conjI)
qed


section \<open>The transition returned at the root\<close>

text \<open>
  C9, the counterexample: one move at the root, leading to a board worth \<open>-1e10\<close>. The
  child's value is below the initial best \<open>-9e9\<close>, so it is neither equal to it nor
  better, the set stays empty and \<open>Minimax\<close> returns no transition.
\<close>

theorem unlisted_low_heuristic:
  "(1::nat) \<le> 1 \<and> calculateEndState (leafGame 0 [- 10000000000]) (board root) = 0 \<and>
   calculateTransitions (leafGame 0 [- 10000000000]) (board root) True = [0] \<and>
   Minimax (\<lambda>k. k) (leafGame 0 [- 10000000000]) root 1 =
     Some (None, \<lparr>board = None, draws = 0,
       trace = [CalculateTransitions None True, CalculateEndState None, ApplyTransition None 0,
         CalculateBoard (Some 0), UndoTransition (Some 0) 0, Print (- 9000000000)]\<rparr>)"
  by (simp add: model_defs root_def)

text \<open>
  C9, as amended: if no board is worth less than \<open>-9e9\<close>, then with
  \<open>maxDepth \<ge> 1\<close>, a root whose end state is 0 and a non-empty list of root
  transitions, \<open>Minimax\<close> returns a transition, and it is an element of that list.
\<close>

theorem root_returns_listed_transition:
  assumes "1 \<le> maxDepth" and "calculateEndState cb (board w) = 0"
    and "calculateTransitions cb (board w) True \<noteq> []"
    and "\<forall>b. - 9000000000 \<le> calculateBoard cb b"
  shows "\<exists>t w'. Minimax rnd cb w maxDepth = Some (Some t, w') \<and>
           t \<in> set (calculateTransitions cb (board w) True)"
proof -
  from assms(1) have ne: "0 \<noteq> maxDepth" and le: "0 + 1 \<le> maxDepth" by simp_all
  obtain r w' where run: "runMinimaxAlgorithm rnd cb w 0 maxDepth True (- 9000000000) 9000000000 = Some (r, w')"
    using run_total [of 0 maxDepth rnd cb w True] by (metis le0 surj_pair)
  have rec: "\<forall>w a b u v w'. descend rnd cb 0 maxDepth True w a b = Some ((u, v), w') \<longrightarrow>
      - 9000000000 \<le> v"
    unfolding descend_def using run_value_ge [OF assms(4) le] by blast
  from ne run have "\<exists>t. fst r = Some t \<and> t \<in> set (calculateTransitions cb (board w) True)"
  proof (cases rule: run_node_cases)
    case (inner l w3)
    from inner(2) obtain t0 ts where ts: "calculateTransitions cb (board w) True = t0 # ts"
      by (cases "calculateTransitions cb (board w) True") auto
    from inner(3) [unfolded ts] obtain s1 where
      "visit (descend rnd cb 0 maxDepth True) cb True t0 (initial True (- 9000000000) 9000000000, enter cb True w) = Some s1"
      and "forEach (visit (descend rnd cb 0 maxDepth True) cb True) ts s1 = Some (l, w3)"
      by (rule forEach_Cons_cases)
    then obtain l1 w1 where
      v: "visit (descend rnd cb 0 maxDepth True) cb True t0 (initial True (- 9000000000) 9000000000, enter cb True w) = Some (l1, w1)"
      and f: "forEach (visit (descend rnd cb 0 maxDepth True) cb True) ts (l1, w1) = Some (l, w3)"
      by (cases s1) auto
    have "bestTransitions l1 \<noteq> []"
      by (rule first_visit_max_nonempty [OF rec v]) simp_all
    with f have nonempty: "bestTransitions l \<noteq> []" by (rule forEach_visit_nonempty)
    from forEach_visit_subset [OF inner(3)]
    have sub: "set (bestTransitions l) \<subseteq> set (calculateTransitions cb (board w) True)" by simp
    obtain t x where r: "r = (t, x)" by (cases r)
    from inner(4) [unfolded r, symmetric] nonempty sub show ?thesis
      unfolding r by (cases rule: pick_cases) auto
  qed (use assms(2,3) in simp_all)
  with run show ?thesis unfolding Minimax_def by (cases r) auto
qed

theorem root_returns_listed_transition_witness:
  "\<exists>t w'. Minimax (\<lambda>k. k) (leafGame 0 [5, 9, 9]) root 1 = Some (Some t, w') \<and> t < 3"
proof -
  have "\<forall>b. - 9000000000 \<le> calculateBoard (leafGame 0 [5, 9, 9]) b"
    by (rule allI, case_tac b) (simp_all add: nth_Cons split: nat.splits)
  then show ?thesis
    using root_returns_listed_transition [of 1 "leafGame 0 [5, 9, 9]" root "\<lambda>k. k"]
    by (auto simp: root_def)
qed


section \<open>Alpha-beta equivalence\<close>

text \<open>
  C1, the counterexample: two moves at the root, leading to boards worth \<open>1e10\<close> and
  \<open>2e10\<close>, \<open>maxDepth = 1\<close>. The first child raises alpha to \<open>1e10\<close>, above
  beta \<open>= 9e9\<close>, so the second child is skipped and the engine's root value is
  \<open>1e10\<close>; the exhaustive minimax of the same tree is \<open>2e10\<close>.
\<close>

theorem pruned_root_value_differs:
  "runMinimaxAlgorithm (\<lambda>k. k) (leafGame 0 [10000000000, 20000000000]) root 0 1 True
       (- 9000000000) 9000000000 =
     Some ((Some 0, 10000000000),
       \<lparr>board = None, draws = 1,
        trace = [CalculateTransitions None True, CalculateEndState None, ApplyTransition None 0,
          CalculateBoard (Some 0), UndoTransition (Some 0) 0, MathRandom 0 0]\<rparr>) \<and>
   fullMinimax (leafGame 0 [10000000000, 20000000000]) (board root) 1 True = 20000000000"
  by (simp add: model_defs root_def upt_rec)

text \<open>
  C1, as amended: for every game in which \<open>undoTransition\<close> inverts
  \<open>applyTransition\<close> on every transition that \<open>calculateTransitions\<close> returns for a
  board, and no board is worth less than \<open>-9e9\<close> or more than \<open>9e9\<close>, and
  for every \<open>maxDepth\<close>, the engine called at the root with alpha \<open>-9e9\<close> and beta
  \<open>9e9\<close> returns, and its value is the exhaustive minimax of the tree; it is the value
  \<open>Minimax\<close> prints.
\<close>

theorem alpha_beta_equals_minimax:
  assumes "\<forall>b m. \<forall>t \<in> set (calculateTransitions cb b m).
      undoTransition cb (applyTransition cb b t) t = b"
    and "\<forall>b. - 9000000000 \<le> calculateBoard cb b \<and> calculateBoard cb b \<le> 9000000000"
  shows "(\<exists>t w'. runMinimaxAlgorithm rnd cb w 0 maxDepth True (- 9000000000) 9000000000 =
            Some ((t, fullMinimax cb (board w) maxDepth True), w')) \<and>
         (\<exists>t w'. Minimax rnd cb w maxDepth = Some (t, w') \<and>
            last (trace w') = Print (fullMinimax cb (board w) maxDepth True))"
proof -
  obtain t r w' where run:
    "runMinimaxAlgorithm rnd cb w 0 maxDepth True (- 9000000000) 9000000000 = Some ((t, r), w')"
    using run_total [of 0 maxDepth rnd cb w True] by (metis le0 surj_pair)
  have "bracket (- 9000000000) 9000000000 (fullMinimax cb (board w) (maxDepth - 0) True) r"
    by (rule run_bracket [OF assms _ _ _ _ run]) simp_all
  with fullMinimax_bounds [OF assms(2), of "board w" maxDepth True]
  have "r = fullMinimax cb (board w) maxDepth True"
    by (simp add: bracket_exact)
  with run show ?thesis by (simp add: Minimax_def)
qed

theorem alpha_beta_equals_minimax_witness:
  "\<exists>t w'. runMinimaxAlgorithm (\<lambda>k. k) pruneGame start 0 2 True (- 9000000000) 9000000000 =
      Some ((t, 5), w') \<and>
    fullMinimax pruneGame (board start) 2 True = 5 \<and>
    CalculateBoard [1, 0] \<in> set (trace w') \<and> CalculateBoard [1, 1] \<notin> set (trace w')"
proof -
  have v: "fullMinimax pruneGame (board start) 2 True = 5"
    by (simp add: numeral_2_eq_2 start_def)
  from alpha_beta_equals_minimax [OF pruneGame_undo pruneGame_heuristic, of "\<lambda>k. k" start 2]
  obtain t w' where r: "runMinimaxAlgorithm (\<lambda>k. k) pruneGame start 0 2 True (- 9000000000) 9000000000 =
      Some ((t, fullMinimax pruneGame (board start) 2 True), w')"
    by (elim exE conjE) (rule that, assumption+)
  from r have "CalculateBoard [1, 0] \<in> set (trace w') \<and> CalculateBoard [1, 1] \<notin> set (trace w')"
    unfolding pruneGame_run by auto
  with r v show ?thesis by auto
qed

end
